theory Spec2Isabelle
  imports Main "HOL-Library.Word" "HOL-Library.Multiset"
begin

section \<open>The shared execution context (pkg/task/task.go)\<close>

text \<open>
  The Go package \<open>task\<close> defines a \<open>Context\<close> that tasks share, and two composite
  tasks, \<open>Serial\<close> and \<open>Parallel\<close>. This theory embeds them as HOL functions.

  A Go \<open>error\<close> is an interface value that may be \<open>nil\<close>: it is modelled as
  \<open>error option\<close>, \<open>None\<close> being \<open>nil\<close>. The two sentinel errors of the package are
  constructors of their own; every other error a task returns is a \<open>Failure\<close>.
\<close>

datatype error = ErrUnsupportedRollback | ErrNoExecutor | Failure string

text \<open>
  \<open>executor.TiOpsExecutor\<close> is an interface declared in another package. Only the
  identity of a handle matters here; the zero value of the interface is \<open>nil\<close>.
\<close>

datatype TiOpsExecutor = NilExecutor | Executor nat

text \<open>\<open>*repository.VersionManifest\<close> is a pointer to an object of another package.\<close>

datatype VersionManifest = NilManifest | Manifest nat

type_synonym byte = "8 word"

text \<open>
  The struct \<open>Context\<close>. Every Go map is a partial function from its keys. The locks
  (\<open>sync.RWMutex\<close>) guard single map accesses only, so each method below is one atomic
  step on the record. A \<open>[]byte\<close> is a list of bytes (a \<open>nil\<close> slice is the empty
  list). The field \<open>ev\<close> (the event bus) is kept in the \<open>world\<close> record
  further down, because the events it receives carry tasks.
\<close>

record Context =
  executors :: "string \<rightharpoonup> TiOpsExecutor"
  stdouts :: "string \<rightharpoonup> byte list"
  stderrs :: "string \<rightharpoonup> byte list"
  PrivateKeyPath :: string
  PublicKeyPath :: string
  manifests :: "string \<rightharpoonup> VersionManifest"

definition NewContext :: Context where
  "NewContext =
     \<lparr> executors = Map.empty, stdouts = Map.empty, stderrs = Map.empty,
       PrivateKeyPath = [], PublicKeyPath = [], manifests = Map.empty \<rparr>"

text \<open>A Go \<open>panic(msg)\<close> is the left summand of the result.\<close>

datatype panic = Panic string

definition Get :: "Context \<Rightarrow> string \<Rightarrow> panic + TiOpsExecutor" where
  "Get c host =
     (case executors c host of
        None \<Rightarrow> Inl (Panic (''no init executor for '' @ host))
      | Some e \<Rightarrow> Inr e)"

definition GetExecutor :: "Context \<Rightarrow> string \<Rightarrow> TiOpsExecutor \<times> bool" where
  "GetExecutor c host =
     (case executors c host of
        None \<Rightarrow> (NilExecutor, False)
      | Some e \<Rightarrow> (e, True))"

definition SetExecutor :: "Context \<Rightarrow> string \<Rightarrow> TiOpsExecutor \<Rightarrow> Context" where
  "SetExecutor c host e = c\<lparr>executors := (executors c)(host \<mapsto> e)\<rparr>"

text \<open>
  \<open>GetOutputs\<close> reads \<open>stderrs\<close> into the first result and \<open>stdouts\<close> into the
  second, as the source does; \<open>SetOutputs\<close> stores its \<open>stdout\<close> argument in
  \<open>stderrs\<close> and its \<open>stderr\<close> argument in \<open>stdouts\<close>. Reading a missing key from a
  Go map gives the zero value (the \<open>nil\<close> slice) and \<open>ok = false\<close>.
\<close>

definition GetOutputs :: "Context \<Rightarrow> string \<Rightarrow> byte list \<times> byte list \<times> bool" where
  "GetOutputs c host =
     (let (stdout, ok1) = (case stderrs c host of None \<Rightarrow> ([], False) | Some b \<Rightarrow> (b, True));
          (stderr, ok2) = (case stdouts c host of None \<Rightarrow> ([], False) | Some b \<Rightarrow> (b, True))
      in (stdout, stderr, ok1 \<and> ok2))"

definition SetOutputs :: "Context \<Rightarrow> string \<Rightarrow> byte list \<Rightarrow> byte list \<Rightarrow> Context" where
  "SetOutputs c host stdout stderr =
     c\<lparr>stderrs := (stderrs c)(host \<mapsto> stdout), stdouts := (stdouts c)(host \<mapsto> stderr)\<rparr>"

definition GetManifest :: "Context \<Rightarrow> string \<Rightarrow> VersionManifest \<times> bool" where
  "GetManifest c component =
     (case manifests c component of
        None \<Rightarrow> (NilManifest, False)
      | Some m \<Rightarrow> (m, True))"

definition SetManifest :: "Context \<Rightarrow> string \<Rightarrow> VersionManifest \<Rightarrow> Context" where
  "SetManifest c component m = c\<lparr>manifests := (manifests c)(component \<mapsto> m)\<rparr>"

section \<open>Tasks, events and the state of a run\<close>

text \<open>
  The interface \<open>Task\<close> has three methods: \<open>String\<close>, \<open>Execute\<close> and \<open>Rollback\<close>.
  \<open>Serial\<close> and \<open>Parallel\<close> are the two implementations of this file; the leaf
  tasks are an open set of implementations kept elsewhere. A leaf is given by its
  description and by what its \<open>Execute\<close> and \<open>Rollback\<close> do to the context they
  receive: an \<open>action\<close> returns the error (or \<open>nil\<close>) and the context it leaves.
  A leaf works through the methods of the context above; it returns (it neither
  panics nor runs forever), and it does not print announcements, publish events or
  call other tasks: that is left to the composites.
\<close>

type_synonym action = "Context \<Rightarrow> error option \<times> Context"

text \<open>
  Modelled from the spec: the types \<open>StepDisplay\<close> and \<open>ParallelStepDisplay\<close> are
  declared in another file of the package. The spec calls them the two progress-display
  wrapper variants; this file only tests for their type in \<open>isDisplayTask\<close>. They are
  constructors of their own, with their three methods taken as parameters like a leaf's;
  what a wrapper draws on the terminal is not part of the state below.
\<close>

datatype task =
    Leaf string action action
  | StepDisplay string action action
  | ParallelStepDisplay string action action
  | Serial bool "task list"
  | Parallel bool "task list"

text \<open>
  Modelled from the spec: the type \<open>EventBus\<close> of the field \<open>ev\<close> is declared in
  another file of the package. The spec gives its contract: \<open>PublishTaskBegin(task)\<close>
  and \<open>PublishTaskFinish(task, error)\<close> notify the observers synchronously, in publish
  order. The model keeps the sequence of published events.
\<close>

datatype event = TaskBegin task | TaskFinish task "error option"

text \<open>
  To state which calls a composite makes, every dynamic dispatch \<open>t.Execute(ctx)\<close> or
  \<open>t.Rollback(ctx)\<close> made by a composite is recorded when it returns: the nesting
  depth of the caller, the method called, the callee and the error it returned. The
  same record keeps every entry of a goroutine of \<open>Parallel\<close> into the section
  guarded by \<open>mu\<close> (operation \<open>LockMutex\<close>, with the child of the goroutine and
  the error it holds), so that the order in which the goroutines take the mutex can be
  told from the order in which the calls return.
\<close>

datatype operation = ExecuteMethod | RollbackMethod | LockMutex

datatype call =
  Call (call_depth: nat) (call_operation: operation) (call_task: task) (call_result: "error option")

text \<open>
  The state a run acts on: the context proper, the announcement lines the composites
  write with \<open>log.Infof\<close>, the events handed to the event bus, the record of calls,
  the current nesting depth, and the decisions of the Go scheduler still to come (read
  by \<open>Parallel\<close> only): each decision picks the goroutine that takes the next step.
\<close>

record world =
  ctx :: Context
  printed :: "string list"
  published :: "event list"
  calls :: "call list"
  depth :: nat
  sched :: "nat list"

definition Infof :: "string \<Rightarrow> string \<Rightarrow> world \<Rightarrow> world" where
  \<comment> \<open>\<open>log.Infof\<close> with the format \<open>prefix\<close> followed by \<open>%s\<close>: one line\<close>
  "Infof prefix arg w = w\<lparr>printed := printed w @ [prefix @ arg]\<rparr>"

definition PublishTaskBegin :: "task \<Rightarrow> world \<Rightarrow> world" where
  "PublishTaskBegin t w = w\<lparr>published := published w @ [TaskBegin t]\<rparr>"

definition PublishTaskFinish :: "task \<Rightarrow> error option \<Rightarrow> world \<Rightarrow> world" where
  "PublishTaskFinish t err w = w\<lparr>published := published w @ [TaskFinish t err]\<rparr>"

fun isDisplayTask :: "task \<Rightarrow> bool" where
  "isDisplayTask (Serial _ _) = True"
| "isDisplayTask (Parallel _ _) = True"
| "isDisplayTask (StepDisplay _ _ _) = True"
| "isDisplayTask (ParallelStepDisplay _ _ _) = True"
| "isDisplayTask _ = False"

fun Join :: "string list \<Rightarrow> string \<Rightarrow> string" where
  \<comment> \<open>\<open>strings.Join\<close>\<close>
  "Join [] sep = []"
| "Join [s] sep = s"
| "Join (s # ss) sep = s @ sep @ Join ss sep"

fun String :: "task \<Rightarrow> string" where
  "String (Leaf name _ _) = name"
| "String (StepDisplay name _ _) = name"
| "String (ParallelStepDisplay name _ _) = name"
| "String (Serial _ inner) = Join (map String inner) [CHR 0x0A]"
| "String (Parallel _ inner) = Join (map String inner) [CHR 0x0A]"

text \<open>
  A method of the interface is called through the value \<open>X\<close>, which maps each task to
  what its method does (\<open>X\<close> is \<open>Execute\<close> or \<open>Rollback\<close> below). The callee runs one
  level deeper; the call is recorded when it returns.
\<close>

type_synonym dispatch = "task \<Rightarrow> world \<Rightarrow> error option \<times> world"

definition invoke :: "operation \<Rightarrow> dispatch \<Rightarrow> task \<Rightarrow> world \<Rightarrow> error option \<times> world" where
  "invoke m X t w =
     (let d = depth w;
          (err, w') = X t (w\<lparr>depth := Suc d\<rparr>)
      in (err, w'\<lparr>depth := d, calls := calls w' @ [Call d m t err]\<rparr>))"

subsection \<open>Serial\<close>

fun Serial_Execute :: "dispatch \<Rightarrow> bool \<Rightarrow> task list \<Rightarrow> world \<Rightarrow> error option \<times> world" where
  "Serial_Execute X hideDetailDisplay [] w = (None, w)"
| "Serial_Execute X hideDetailDisplay (t # rest) w =
     (let w1 = (if \<not> isDisplayTask t
                then (if \<not> hideDetailDisplay then Infof ''+ [ Serial ] - '' (String t) w else w)
                else w);
          w2 = PublishTaskBegin t w1;
          (err, w3) = invoke ExecuteMethod X t w2;
          w4 = PublishTaskFinish t err w3
      in if err \<noteq> None then (err, w4) else Serial_Execute X hideDetailDisplay rest w4)"

text \<open>
  The loop \<open>for i := len(s.inner) - 1; i >= 0; i--\<close>: the counter \<open>n\<close> is \<open>i + 1\<close>, so
  that the loop ends when \<open>n\<close> is \<open>0\<close>.
\<close>

fun Serial_Rollback_from :: "dispatch \<Rightarrow> task list \<Rightarrow> nat \<Rightarrow> world \<Rightarrow> error option \<times> world" where
  "Serial_Rollback_from X inner 0 w = (None, w)"
| "Serial_Rollback_from X inner (Suc i) w =
     (let (err, w') = invoke RollbackMethod X (inner ! i) w
      in if err \<noteq> None then (err, w') else Serial_Rollback_from X inner i w')"

definition Serial_Rollback :: "dispatch \<Rightarrow> task list \<Rightarrow> world \<Rightarrow> error option \<times> world" where
  "Serial_Rollback X inner w = Serial_Rollback_from X inner (length inner) w"


subsection \<open>Parallel\<close>

text \<open>
  \<open>Parallel.Execute\<close> starts one goroutine per child and waits for all of them. The
  goroutines run concurrently: between two statements of one goroutine any other
  goroutine may run. The closure a goroutine runs is therefore cut at its statements,
  and \<open>pc\<close> names the statement a goroutine is about to run:

  \<^item> \<open>AtAnnounce\<close>: the announcement (the test of \<open>isDisplayTask\<close> and of the flag, and
    \<open>log.Infof\<close>);
  \<^item> \<open>AtBegin\<close>: \<open>ctx.ev.PublishTaskBegin(t)\<close>;
  \<^item> \<open>AtCall\<close>: \<open>err := t.Execute(ctx)\<close> (in \<open>Rollback\<close>: \<open>err := t.Rollback(ctx)\<close>);
  \<^item> \<open>AtFinish\<close>: \<open>ctx.ev.PublishTaskFinish(t, err)\<close>;
  \<^item> \<open>AtRecord\<close>: \<open>if err != nil { mu.Lock(); if firstError == nil { firstError = err };
    mu.Unlock() }\<close>;
  \<^item> \<open>AtDone\<close>: the deferred \<open>wg.Done()\<close>;
  \<^item> \<open>Exited\<close>: the goroutine has returned.

  A goroutine has two variables of its own, the parameter \<open>t\<close> and \<open>err\<close> (\<open>nil\<close> until
  the call has returned). The variables \<open>firstError\<close> and \<open>wg\<close> (the counter of the
  \<open>sync.WaitGroup\<close>) are shared by the goroutines of one call of \<open>Parallel.Execute\<close>.
  The mutex \<open>mu\<close> lets one goroutine at a time run the section between \<open>Lock\<close> and
  \<open>Unlock\<close>, and nothing else reads or writes \<open>firstError\<close> before \<open>wg.Wait()\<close> has
  returned: the section is one step. The call of the child's method is one step as well
  (a leaf is given by what its method does to the context, see \<open>action\<close>).
\<close>

datatype pc = AtAnnounce | AtBegin | AtCall | AtFinish | AtRecord | AtDone | Exited

datatype goroutine = Goroutine (task_of: task) (pc_of: pc) (err_of: "error option")

definition mu_Lock :: "task \<Rightarrow> error option \<Rightarrow> world \<Rightarrow> world" where
  \<comment> \<open>the goroutine of child \<open>t\<close> takes the mutex, holding \<open>err\<close>\<close>
  "mu_Lock t err w = w\<lparr>calls := calls w @ [Call (depth w) LockMutex t err]\<rparr>"

text \<open>
  One step of a goroutine of \<open>Parallel.Execute\<close>: the goroutine with its new \<open>pc\<close> and
  \<open>err\<close>, and the new values of \<open>firstError\<close>, of the counter \<open>wg\<close> and of the state.
\<close>

type_synonym body =
  "goroutine \<Rightarrow> error option \<Rightarrow> nat \<Rightarrow> world \<Rightarrow> goroutine \<times> error option \<times> nat \<times> world"

fun Parallel_Execute_go :: "dispatch \<Rightarrow> bool \<Rightarrow> body" where
  "Parallel_Execute_go X hideDetailDisplay (Goroutine t AtAnnounce err) firstError wg w =
     (Goroutine t AtBegin err, firstError, wg,
      if \<not> isDisplayTask t
      then (if \<not> hideDetailDisplay then Infof ''+ [Parallel] - '' (String t) w else w)
      else w)"
| "Parallel_Execute_go X hideDetailDisplay (Goroutine t AtBegin err) firstError wg w =
     (Goroutine t AtCall err, firstError, wg, PublishTaskBegin t w)"
| "Parallel_Execute_go X hideDetailDisplay (Goroutine t AtCall err) firstError wg w =
     (let (err', w') = invoke ExecuteMethod X t w
      in (Goroutine t AtFinish err', firstError, wg, w'))"
| "Parallel_Execute_go X hideDetailDisplay (Goroutine t AtFinish err) firstError wg w =
     (Goroutine t AtRecord err, firstError, wg, PublishTaskFinish t err w)"
| "Parallel_Execute_go X hideDetailDisplay (Goroutine t AtRecord err) firstError wg w =
     (if err \<noteq> None
      then (Goroutine t AtDone err, (if firstError = None then err else firstError), wg,
            mu_Lock t err w)
      else (Goroutine t AtDone err, firstError, wg, w))"
| "Parallel_Execute_go X hideDetailDisplay (Goroutine t AtDone err) firstError wg w =
     (Goroutine t Exited err, firstError, wg - 1, w)"
| "Parallel_Execute_go X hideDetailDisplay (Goroutine t Exited err) firstError wg w =
     (Goroutine t Exited err, firstError, wg, w)"

text \<open>
  The closure of \<open>Parallel.Rollback\<close> has the call, the update of \<open>firstError\<close> and
  \<open>wg.Done()\<close> only: its goroutines start at \<open>AtCall\<close> and never are at \<open>AtAnnounce\<close>,
  \<open>AtBegin\<close> or \<open>AtFinish\<close> (a goroutine there is moved on, and nothing else happens).
\<close>

fun Parallel_Rollback_go :: "dispatch \<Rightarrow> body" where
  "Parallel_Rollback_go X (Goroutine t AtCall err) firstError wg w =
     (let (err', w') = invoke RollbackMethod X t w
      in (Goroutine t AtRecord err', firstError, wg, w'))"
| "Parallel_Rollback_go X (Goroutine t AtRecord err) firstError wg w =
     (if err \<noteq> None
      then (Goroutine t AtDone err, (if firstError = None then err else firstError), wg,
            mu_Lock t err w)
      else (Goroutine t AtDone err, firstError, wg, w))"
| "Parallel_Rollback_go X (Goroutine t AtDone err) firstError wg w =
     (Goroutine t Exited err, firstError, wg - 1, w)"
| "Parallel_Rollback_go X (Goroutine t Exited err) firstError wg w =
     (Goroutine t Exited err, firstError, wg, w)"
| "Parallel_Rollback_go X (Goroutine t AtAnnounce err) firstError wg w =
     (Goroutine t AtCall err, firstError, wg, w)"
| "Parallel_Rollback_go X (Goroutine t AtBegin err) firstError wg w =
     (Goroutine t AtCall err, firstError, wg, w)"
| "Parallel_Rollback_go X (Goroutine t AtFinish err) firstError wg w =
     (Goroutine t AtRecord err, firstError, wg, w)"

text \<open>
  The loop \<open>for _, t := range pt.inner { wg.Add(1); go func(t Task) {...}(t) }\<close>: every
  child adds one to the counter and starts a goroutine at the first statement of the
  closure. The loop is run to its end before the goroutines take steps: a goroutine that
  has been started and has not taken a step cannot be told from one that has not been
  started yet.
\<close>

fun Parallel_spawn :: "pc \<Rightarrow> task list \<Rightarrow> goroutine list \<Rightarrow> nat \<Rightarrow> goroutine list \<times> nat" where
  "Parallel_spawn start [] gs wg = (gs, wg)"
| "Parallel_spawn start (t # rest) gs wg =
     Parallel_spawn start rest (gs @ [Goroutine t start None]) (wg + 1)"

text \<open>
  What is running during \<open>wg.Wait()\<close>: the goroutines that have not returned yet,
  \<open>firstError\<close>, the counter \<open>wg\<close>, and the state. One decision \<open>c\<close> of the scheduler
  picks one of these goroutines, which takes one step; a goroutine that has returned
  is taken off the list.
\<close>

type_synonym parallel = "goroutine list \<times> error option \<times> nat \<times> world"

definition Parallel_next :: "body \<Rightarrow> nat \<Rightarrow> parallel \<Rightarrow> parallel" where
  "Parallel_next go c p =
     (case p of (gs, firstError, wg, w) \<Rightarrow>
        (let i = c mod length gs;
             (g, firstError', wg', w') = go (gs ! i) firstError wg w
         in (if pc_of g = Exited then take i gs @ drop (Suc i) gs else gs[i := g],
             firstError', wg', w')))"

text \<open>
  \<open>wg.Wait()\<close> returns when the counter is \<open>0\<close>; until then the goroutines take steps
  as the scheduler decides. The decisions are a list, one for each step. (With no
  goroutine left and a counter that is not \<open>0\<close> the program would wait forever; this
  does not happen, since the counter is the number of goroutines left, and the run
  below ends with the counter at \<open>0\<close>: lemma \<open>Parallel_run_ends\<close>.)
\<close>

fun Parallel_run :: "body \<Rightarrow> nat list \<Rightarrow> parallel \<Rightarrow> parallel" where
  "Parallel_run go [] p = p"
| "Parallel_run go (c # choices) (gs, firstError, wg, w) =
     (if wg = 0 \<or> gs = [] then (gs, firstError, wg, w)
      else Parallel_run go choices (Parallel_next go c (gs, firstError, wg, w)))"

text \<open>
  \<open>Parallel.Execute\<close> up to the return of \<open>wg.Wait()\<close>. A goroutine of \<open>Execute\<close> takes
  six steps, so the \<open>N\<close> goroutines take \<open>6 * N\<close> steps: their decisions are taken from
  the front of \<open>sched\<close> (when \<open>sched\<close> is too short, the missing decisions are \<open>0\<close>, the
  first goroutine of the list). \<open>Parallel.Execute\<close> then returns \<open>firstError\<close>.
\<close>

definition Parallel_Execute_wait :: "dispatch \<Rightarrow> bool \<Rightarrow> task list \<Rightarrow> world \<Rightarrow> parallel" where
  "Parallel_Execute_wait X hideDetailDisplay inner w =
     (let n = 6 * length inner;
          (gs, wg) = Parallel_spawn AtAnnounce inner [] 0
      in Parallel_run (Parallel_Execute_go X hideDetailDisplay)
           (take n (sched w @ replicate n 0))
           (gs, None, wg, w\<lparr>sched := drop n (sched w)\<rparr>))"

definition Parallel_Execute :: "dispatch \<Rightarrow> bool \<Rightarrow> task list \<Rightarrow> world \<Rightarrow> error option \<times> world" where
  "Parallel_Execute X hideDetailDisplay inner w =
     (let (gs, firstError, wg, w') = Parallel_Execute_wait X hideDetailDisplay inner w
      in (firstError, w'))"

text \<open>A goroutine of \<open>Parallel.Rollback\<close> takes three steps.\<close>

definition Parallel_Rollback_wait :: "dispatch \<Rightarrow> task list \<Rightarrow> world \<Rightarrow> parallel" where
  "Parallel_Rollback_wait X inner w =
     (let n = 3 * length inner;
          (gs, wg) = Parallel_spawn AtCall inner [] 0
      in Parallel_run (Parallel_Rollback_go X)
           (take n (sched w @ replicate n 0))
           (gs, None, wg, w\<lparr>sched := drop n (sched w)\<rparr>))"

definition Parallel_Rollback :: "dispatch \<Rightarrow> task list \<Rightarrow> world \<Rightarrow> error option \<times> world" where
  "Parallel_Rollback X inner w =
     (let (gs, firstError, wg, w') = Parallel_Rollback_wait X inner w
      in (firstError, w'))"

subsection \<open>The methods of every task\<close>

text \<open>
  The composites call their children only, so the recursive calls below are on
  smaller tasks; the congruence lemmas say so to the function package. For \<open>Parallel\<close>
  they follow from a lemma on two runs that take the same decisions: if every step of
  the one is matched by the step of the other, up to a relation \<open>R\<close> between the
  states, then the runs end alike.
\<close>

definition related :: "(world \<Rightarrow> world \<Rightarrow> bool) \<Rightarrow> 'a \<times> 'b \<times> 'c \<times> world \<Rightarrow> 'a \<times> 'b \<times> 'c \<times> world \<Rightarrow> bool" where
  "related R x y \<longleftrightarrow>
     fst x = fst y \<and> fst (snd x) = fst (snd y) \<and> fst (snd (snd x)) = fst (snd (snd y))
     \<and> R (snd (snd (snd x))) (snd (snd (snd y)))"

definition matched :: "(world \<Rightarrow> world \<Rightarrow> bool) \<Rightarrow> task set \<Rightarrow> body \<Rightarrow> body \<Rightarrow> bool" where
  "matched R T go go' \<longleftrightarrow>
     (\<forall>g firstError wg v v'. task_of g \<in> T \<longrightarrow> R v v' \<longrightarrow>
        related R (go g firstError wg v) (go' g firstError wg v')
        \<and> task_of (fst (go g firstError wg v)) = task_of g)"

lemma related_simp [simp]:
  "related R (a, b, c, v) (a', b', c', v') \<longleftrightarrow> a = a' \<and> b = b' \<and> c = c' \<and> R v v'"
  by (simp add: related_def)

lemma set_remove_nth: "set (take i xs @ drop (Suc i) xs) \<subseteq> set xs"
  by (auto dest: in_set_takeD in_set_dropD)

lemma Parallel_next_related:
  assumes "matched R T go go'" and "task_of ` set gs \<subseteq> T" and "R w w'" and "gs \<noteq> []"
  shows "related R (Parallel_next go c (gs, fe, wg, w)) (Parallel_next go' c (gs, fe, wg, w'))
       \<and> task_of ` set (fst (Parallel_next go c (gs, fe, wg, w))) \<subseteq> T"
proof -
  define i where "i = c mod length gs"
  have i: "i < length gs" using assms(4) by (simp add: i_def)
  then have t: "task_of (gs ! i) \<in> T" using assms(2) by auto
  obtain g1 fe1 wg1 v1 where s: "go (gs ! i) fe wg w = (g1, fe1, wg1, v1)"
    by (cases "go (gs ! i) fe wg w") auto
  obtain g2 fe2 wg2 v2 where s': "go' (gs ! i) fe wg w' = (g2, fe2, wg2, v2)"
    by (cases "go' (gs ! i) fe wg w'") auto
  from assms(1) t assms(3) have "related R (go (gs ! i) fe wg w) (go' (gs ! i) fe wg w')"
    and "task_of (fst (go (gs ! i) fe wg w)) = task_of (gs ! i)"
    unfolding matched_def by blast+
  then have eq: "g1 = g2" "fe1 = fe2" "wg1 = wg2" "R v1 v2" and t1: "task_of g1 \<in> T"
    using s s' t by simp_all
  have "task_of ` set (gs[i := g1]) \<subseteq> T"
    using assms(2) t1 set_update_subset_insert [of gs i g1] by auto
  moreover have "task_of ` set (take i gs @ drop (Suc i) gs) \<subseteq> T"
    using assms(2) set_remove_nth [of i gs] by blast
  ultimately show ?thesis
    using eq s s' by (simp add: Parallel_next_def i_def [symmetric])
qed

lemma Parallel_run_related:
  assumes "matched R T go go'" and "task_of ` set gs \<subseteq> T" and "R w w'"
  shows "related R (Parallel_run go choices (gs, fe, wg, w))
           (Parallel_run go' choices (gs, fe, wg, w'))"
  using assms(2,3)
proof (induction choices arbitrary: gs fe wg w w')
  case Nil
  then show ?case by simp
next
  case (Cons c choices)
  show ?case
  proof (cases "wg = 0 \<or> gs = []")
    case True
    then show ?thesis using Cons.prems by auto
  next
    case False
    then have ne: "gs \<noteq> []" by simp
    obtain gs1 fe1 wg1 v1 where n: "Parallel_next go c (gs, fe, wg, w) = (gs1, fe1, wg1, v1)"
      by (cases "Parallel_next go c (gs, fe, wg, w)") auto
    obtain gs2 fe2 wg2 v2 where n': "Parallel_next go' c (gs, fe, wg, w') = (gs2, fe2, wg2, v2)"
      by (cases "Parallel_next go' c (gs, fe, wg, w')") auto
    from Parallel_next_related [OF assms(1) Cons.prems(1,2) ne, of c fe wg]
    have all: "gs1 = gs2 \<and> fe1 = fe2 \<and> wg1 = wg2 \<and> R v1 v2 \<and> task_of ` set gs1 \<subseteq> T"
      unfolding n n' related_simp fst_conv by blast
    then have eq: "gs1 = gs2" "fe1 = fe2" "wg1 = wg2" "R v1 v2" and T: "task_of ` set gs1 \<subseteq> T"
      by blast+
    from Cons.IH [OF T eq(4), of fe1 wg1] show ?thesis
      using False n n' eq by simp
  qed
qed

lemma Parallel_spawn_eq:
  "Parallel_spawn start ts gs wg = (gs @ map (\<lambda>t. Goroutine t start None) ts, wg + length ts)"
  by (induction ts arbitrary: gs wg) simp_all

lemma Serial_Execute_cong [fundef_cong]:
  assumes "hide = hide'" "inner = inner'" "w = w'"
    and "\<And>t v. t \<in> set inner' \<Longrightarrow> X t v = X' t v"
  shows "Serial_Execute X hide inner w = Serial_Execute X' hide' inner' w'"
  using assms(4) unfolding assms(1-3)
  by (induction inner' arbitrary: w') (auto simp: invoke_def Let_def split: prod.splits)

lemma Serial_Rollback_from_cong:
  assumes "n \<le> length inner" and "\<And>t v. t \<in> set inner \<Longrightarrow> X t v = X' t v"
  shows "Serial_Rollback_from X inner n w = Serial_Rollback_from X' inner n w"
  using assms by (induction n arbitrary: w) (auto simp: invoke_def Let_def split: prod.splits)

lemma Serial_Rollback_cong [fundef_cong]:
  assumes "inner = inner'" "w = w'"
    and "\<And>t v. t \<in> set inner' \<Longrightarrow> X t v = X' t v"
  shows "Serial_Rollback X inner w = Serial_Rollback X' inner' w'"
  unfolding assms(1,2) Serial_Rollback_def
  by (rule Serial_Rollback_from_cong) (simp_all add: assms(3))

lemma Parallel_Execute_go_matched:
  assumes "\<And>t v. t \<in> T \<Longrightarrow> X t v = X' t v"
  shows "matched (=) T (Parallel_Execute_go X hide) (Parallel_Execute_go X' hide)"
  unfolding matched_def
proof (intro allI impI)
  fix g :: goroutine and firstError wg and v v' :: world
  assume "task_of g \<in> T" "v = v'"
  then show "related (=) (Parallel_Execute_go X hide g firstError wg v)
          (Parallel_Execute_go X' hide g firstError wg v')
       \<and> task_of (fst (Parallel_Execute_go X hide g firstError wg v)) = task_of g"
    using assms
    by (cases g; cases "pc_of g") (auto simp: invoke_def Let_def related_def split: prod.splits)
qed

lemma Parallel_Rollback_go_matched:
  assumes "\<And>t v. t \<in> T \<Longrightarrow> X t v = X' t v"
  shows "matched (=) T (Parallel_Rollback_go X) (Parallel_Rollback_go X')"
  unfolding matched_def
proof (intro allI impI)
  fix g :: goroutine and firstError wg and v v' :: world
  assume "task_of g \<in> T" "v = v'"
  then show "related (=) (Parallel_Rollback_go X g firstError wg v)
          (Parallel_Rollback_go X' g firstError wg v')
       \<and> task_of (fst (Parallel_Rollback_go X g firstError wg v)) = task_of g"
    using assms
    by (cases g; cases "pc_of g") (auto simp: invoke_def Let_def related_def split: prod.splits)
qed

lemma related_eq: "related (=) x y \<longleftrightarrow> x = y"
  by (auto simp: related_def prod_eq_iff)

lemma Parallel_Execute_cong [fundef_cong]:
  assumes "hide = hide'" "inner = inner'" "w = w'"
    and "\<And>t v. t \<in> set inner' \<Longrightarrow> X t v = X' t v"
  shows "Parallel_Execute X hide inner w = Parallel_Execute X' hide' inner' w'"
proof -
  have "Parallel_Execute_wait X hide' inner' w' = Parallel_Execute_wait X' hide' inner' w'"
    unfolding Parallel_Execute_wait_def Let_def Parallel_spawn_eq prod.case related_eq [symmetric]
    by (rule Parallel_run_related [OF Parallel_Execute_go_matched [of "set inner'"]])
       (auto simp: assms(4))
  then show ?thesis
    unfolding assms(1-3) Parallel_Execute_def by simp
qed

lemma Parallel_Rollback_cong [fundef_cong]:
  assumes "inner = inner'" "w = w'"
    and "\<And>t v. t \<in> set inner' \<Longrightarrow> X t v = X' t v"
  shows "Parallel_Rollback X inner w = Parallel_Rollback X' inner' w'"
proof -
  have "Parallel_Rollback_wait X inner' w' = Parallel_Rollback_wait X' inner' w'"
    unfolding Parallel_Rollback_wait_def Let_def Parallel_spawn_eq prod.case related_eq [symmetric]
    by (rule Parallel_run_related [OF Parallel_Rollback_go_matched [of "set inner'"]])
       (auto simp: assms(3))
  then show ?thesis
    unfolding assms(1,2) Parallel_Rollback_def by simp
qed

fun Execute :: "task \<Rightarrow> world \<Rightarrow> error option \<times> world" where
  "Execute (Leaf name exec rollb) w = (let (err, c) = exec (ctx w) in (err, w\<lparr>ctx := c\<rparr>))"
| "Execute (StepDisplay name exec rollb) w = (let (err, c) = exec (ctx w) in (err, w\<lparr>ctx := c\<rparr>))"
| "Execute (ParallelStepDisplay name exec rollb) w =
     (let (err, c) = exec (ctx w) in (err, w\<lparr>ctx := c\<rparr>))"
| "Execute (Serial hideDetailDisplay inner) w = Serial_Execute Execute hideDetailDisplay inner w"
| "Execute (Parallel hideDetailDisplay inner) w = Parallel_Execute Execute hideDetailDisplay inner w"

fun Rollback :: "task \<Rightarrow> world \<Rightarrow> error option \<times> world" where
  "Rollback (Leaf name exec rollb) w = (let (err, c) = rollb (ctx w) in (err, w\<lparr>ctx := c\<rparr>))"
| "Rollback (StepDisplay name exec rollb) w = (let (err, c) = rollb (ctx w) in (err, w\<lparr>ctx := c\<rparr>))"
| "Rollback (ParallelStepDisplay name exec rollb) w =
     (let (err, c) = rollb (ctx w) in (err, w\<lparr>ctx := c\<rparr>))"
| "Rollback (Serial hideDetailDisplay inner) w = Serial_Rollback Rollback inner w"
| "Rollback (Parallel hideDetailDisplay inner) w = Parallel_Rollback Rollback inner w"

subsection \<open>The same methods under another classification\<close>

text \<open>
  To state that the type test \<open>isDisplayTask\<close> and the flag \<open>hideDetailDisplay\<close>
  decide what is printed and nothing else, \<open>Execute\<close> is given once more with the type
  test replaced by an arbitrary classification \<open>cls\<close> of the children. Nothing else
  is changed, and with \<open>cls = isDisplayTask\<close> it is \<open>Execute\<close> (lemma
  \<open>Execute_classified_isDisplayTask\<close>).
\<close>

fun Serial_Execute_classified ::
  "(task \<Rightarrow> bool) \<Rightarrow> dispatch \<Rightarrow> bool \<Rightarrow> task list \<Rightarrow> world \<Rightarrow> error option \<times> world" where
  "Serial_Execute_classified cls X hideDetailDisplay [] w = (None, w)"
| "Serial_Execute_classified cls X hideDetailDisplay (t # rest) w =
     (let w1 = (if \<not> cls t
                then (if \<not> hideDetailDisplay then Infof ''+ [ Serial ] - '' (String t) w else w)
                else w);
          w2 = PublishTaskBegin t w1;
          (err, w3) = invoke ExecuteMethod X t w2;
          w4 = PublishTaskFinish t err w3
      in if err \<noteq> None then (err, w4)
         else Serial_Execute_classified cls X hideDetailDisplay rest w4)"

fun Parallel_Execute_go_classified :: "(task \<Rightarrow> bool) \<Rightarrow> dispatch \<Rightarrow> bool \<Rightarrow> body" where
  "Parallel_Execute_go_classified cls X hideDetailDisplay (Goroutine t AtAnnounce err) firstError wg w =
     (Goroutine t AtBegin err, firstError, wg,
      if \<not> cls t
      then (if \<not> hideDetailDisplay then Infof ''+ [Parallel] - '' (String t) w else w)
      else w)"
| "Parallel_Execute_go_classified cls X hideDetailDisplay (Goroutine t AtBegin err) firstError wg w =
     (Goroutine t AtCall err, firstError, wg, PublishTaskBegin t w)"
| "Parallel_Execute_go_classified cls X hideDetailDisplay (Goroutine t AtCall err) firstError wg w =
     (let (err', w') = invoke ExecuteMethod X t w
      in (Goroutine t AtFinish err', firstError, wg, w'))"
| "Parallel_Execute_go_classified cls X hideDetailDisplay (Goroutine t AtFinish err) firstError wg w =
     (Goroutine t AtRecord err, firstError, wg, PublishTaskFinish t err w)"
| "Parallel_Execute_go_classified cls X hideDetailDisplay (Goroutine t AtRecord err) firstError wg w =
     (if err \<noteq> None
      then (Goroutine t AtDone err, (if firstError = None then err else firstError), wg,
            mu_Lock t err w)
      else (Goroutine t AtDone err, firstError, wg, w))"
| "Parallel_Execute_go_classified cls X hideDetailDisplay (Goroutine t AtDone err) firstError wg w =
     (Goroutine t Exited err, firstError, wg - 1, w)"
| "Parallel_Execute_go_classified cls X hideDetailDisplay (Goroutine t Exited err) firstError wg w =
     (Goroutine t Exited err, firstError, wg, w)"

definition Parallel_Execute_classified ::
  "(task \<Rightarrow> bool) \<Rightarrow> dispatch \<Rightarrow> bool \<Rightarrow> task list \<Rightarrow> world \<Rightarrow> error option \<times> world" where
  "Parallel_Execute_classified cls X hideDetailDisplay inner w =
     (let n = 6 * length inner;
          (gs, wg) = Parallel_spawn AtAnnounce inner [] 0;
          (gs', firstError, wg', w') =
             Parallel_run (Parallel_Execute_go_classified cls X hideDetailDisplay)
               (take n (sched w @ replicate n 0))
               (gs, None, wg, w\<lparr>sched := drop n (sched w)\<rparr>)
      in (firstError, w'))"

lemma Serial_Execute_classified_cong [fundef_cong]:
  assumes "cls = cls'" "hide = hide'" "inner = inner'" "w = w'"
    and "\<And>t v. t \<in> set inner' \<Longrightarrow> X t v = X' t v"
  shows "Serial_Execute_classified cls X hide inner w = Serial_Execute_classified cls' X' hide' inner' w'"
  using assms(5) unfolding assms(1-4)
  by (induction inner' arbitrary: w') (auto simp: invoke_def Let_def split: prod.splits)

lemma Parallel_Execute_go_classified_matched:
  assumes "\<And>t v. t \<in> T \<Longrightarrow> X t v = X' t v"
  shows "matched (=) T (Parallel_Execute_go_classified cls X hide)
           (Parallel_Execute_go_classified cls X' hide)"
  unfolding matched_def
proof (intro allI impI)
  fix g :: goroutine and firstError wg and v v' :: world
  assume "task_of g \<in> T" "v = v'"
  then show "related (=) (Parallel_Execute_go_classified cls X hide g firstError wg v)
          (Parallel_Execute_go_classified cls X' hide g firstError wg v')
       \<and> task_of (fst (Parallel_Execute_go_classified cls X hide g firstError wg v)) = task_of g"
    using assms
    by (cases g; cases "pc_of g") (auto simp: invoke_def Let_def related_def split: prod.splits)
qed

lemma Parallel_Execute_classified_cong [fundef_cong]:
  assumes "cls = cls'" "hide = hide'" "inner = inner'" "w = w'"
    and "\<And>t v. t \<in> set inner' \<Longrightarrow> X t v = X' t v"
  shows "Parallel_Execute_classified cls X hide inner w
     = Parallel_Execute_classified cls' X' hide' inner' w'"
proof -
  have "Parallel_run (Parallel_Execute_go_classified cls' X hide') choices
          (map (\<lambda>t. Goroutine t AtAnnounce None) inner', None, n, v)
      = Parallel_run (Parallel_Execute_go_classified cls' X' hide') choices
          (map (\<lambda>t. Goroutine t AtAnnounce None) inner', None, n, v)" for choices n v
    unfolding related_eq [symmetric]
    by (rule Parallel_run_related [OF Parallel_Execute_go_classified_matched [of "set inner'"]])
       (auto simp: assms(5))
  then show ?thesis
    unfolding assms(1-4) Parallel_Execute_classified_def Let_def Parallel_spawn_eq prod.case
    by simp
qed

fun Execute_classified :: "(task \<Rightarrow> bool) \<Rightarrow> task \<Rightarrow> world \<Rightarrow> error option \<times> world" where
  "Execute_classified cls (Leaf name exec rollb) w =
     (let (err, c) = exec (ctx w) in (err, w\<lparr>ctx := c\<rparr>))"
| "Execute_classified cls (StepDisplay name exec rollb) w =
     (let (err, c) = exec (ctx w) in (err, w\<lparr>ctx := c\<rparr>))"
| "Execute_classified cls (ParallelStepDisplay name exec rollb) w =
     (let (err, c) = exec (ctx w) in (err, w\<lparr>ctx := c\<rparr>))"
| "Execute_classified cls (Serial hideDetailDisplay inner) w =
     Serial_Execute_classified cls (Execute_classified cls) hideDetailDisplay inner w"
| "Execute_classified cls (Parallel hideDetailDisplay inner) w =
     Parallel_Execute_classified cls (Execute_classified cls) hideDetailDisplay inner w"

section \<open>Observing a run\<close>

text \<open>
  The calls a composite makes itself are the recorded calls at its own depth; the calls
  its children make are deeper. \<open>direct_calls m w w'\<close> lists, in order, the callee and
  the returned error of every call of method \<open>m\<close> made at the depth of \<open>w\<close> between
  the states \<open>w\<close> and \<open>w'\<close>.
\<close>

definition direct :: "operation \<Rightarrow> nat \<Rightarrow> call list \<Rightarrow> (task \<times> error option) list" where
  "direct m d cs =
     map (\<lambda>c. (call_task c, call_result c))
       (filter (\<lambda>c. call_depth c = d \<and> call_operation c = m) cs)"

definition direct_calls :: "operation \<Rightarrow> world \<Rightarrow> world \<Rightarrow> (task \<times> error option) list" where
  "direct_calls m w w' = direct m (depth w) (drop (length (calls w)) (calls w'))"


text \<open>
  Two facts used in the proofs only: a method \<open>X\<close> of task \<open>t\<close> records calls at the
  depth it runs at or deeper; and the shape of the calls of a loop that stops at the
  first error.
\<close>

definition deeper :: "dispatch \<Rightarrow> task \<Rightarrow> bool" where
  "deeper X t \<longleftrightarrow>
     (\<forall>v. \<exists>cs. calls (snd (X t v)) = calls v @ cs \<and> (\<forall>c\<in>set cs. depth v \<le> call_depth c))"

definition serial_shape :: "task list \<Rightarrow> error option \<Rightarrow> (task \<times> error option) list \<Rightarrow> bool" where
  "serial_shape ts res ds \<longleftrightarrow>
     (res = None \<and> ds = map (\<lambda>t. (t, None)) ts)
     \<or> (\<exists>k e. k < length ts \<and> res = Some e
              \<and> ds = map (\<lambda>t. (t, None)) (take k ts) @ [(ts ! k, Some e)])"

text \<open>
  What a method returns and what it does to the context depend on the context and on
  the decisions of the scheduler only, not on what has been printed, published or
  recorded before. \<open>agree strict v v'\<close> relates two states with the same context and
  the same decisions, and, when \<open>strict\<close>, the same events, record of calls and depth
  as well (they differ at most in what was printed). Two methods are \<open>alike\<close> on a
  task when, started in such states, they return the same error and leave such states.
  A method is \<open>quiet\<close> when it neither prints nor publishes. All three are used in
  the proofs only.
\<close>

definition agree :: "bool \<Rightarrow> world \<Rightarrow> world \<Rightarrow> bool" where
  "agree strict v v' \<longleftrightarrow>
     ctx v = ctx v' \<and> sched v = sched v'
     \<and> (strict \<longrightarrow> published v = published v' \<and> calls v = calls v' \<and> depth v = depth v')"

definition alike :: "bool \<Rightarrow> dispatch \<Rightarrow> dispatch \<Rightarrow> task \<Rightarrow> bool" where
  "alike strict X X' t \<longleftrightarrow>
     (\<forall>v v'. agree strict v v' \<longrightarrow>
        fst (X t v) = fst (X' t v') \<and> agree strict (snd (X t v)) (snd (X' t v')))"

definition quiet :: "dispatch \<Rightarrow> task \<Rightarrow> bool" where
  "quiet X t \<longleftrightarrow>
     (\<forall>v. printed (snd (X t v)) = printed v \<and> published (snd (X t v)) = published v)"

text \<open>
  The claims on \<open>Serial\<close> and \<open>Parallel\<close> say which children are called and what
  comes back. Their words are written down here with the children's own methods, to be
  compared with what the composites do: \<open>run_until_error X ts w\<close> applies the method
  \<open>X\<close> to the tasks \<open>ts\<close> one after the other, each in the state the one before it
  left, and stops after the first that returns an error; \<open>run_all X ts w\<close> does not
  stop. Both return the tasks reached with the errors returned, and the state left.
\<close>

fun run_until_error :: "dispatch \<Rightarrow> task list \<Rightarrow> world \<Rightarrow> (task \<times> error option) list \<times> world" where
  "run_until_error X [] w = ([], w)"
| "run_until_error X (t # ts) w =
     (let (err, w') = X t w
      in if err \<noteq> None then ([(t, err)], w')
         else (let (rs, w'') = run_until_error X ts w' in ((t, err) # rs, w'')))"






definition extends :: "world \<Rightarrow> world \<Rightarrow> bool" where
  "extends a w \<longleftrightarrow>
     depth w = depth a \<and> (\<exists>cs. calls w = calls a @ cs \<and> (\<forall>c\<in>set cs. depth a \<le> call_depth c))"


text \<open>Leaf tasks and a fresh state for the examples.\<close>

definition succeed :: action where
  "succeed c = (None, c)"

definition fail_with :: "string \<Rightarrow> action" where
  "fail_with msg c = (Some (Failure msg), c)"

definition step_ok :: "string \<Rightarrow> task" where
  "step_ok name = Leaf name succeed succeed"

definition step_failing :: "string \<Rightarrow> task" where
  "step_failing name = Leaf name (fail_with name) succeed"

definition step_register :: "string \<Rightarrow> string \<Rightarrow> TiOpsExecutor \<Rightarrow> task" where
  \<comment> \<open>a leaf whose \<open>Execute\<close> registers an executor for a host\<close>
  "step_register name host e = Leaf name (\<lambda>c. (None, SetExecutor c host e)) succeed"

definition world0 :: world where
  "world0 = \<lparr> ctx = NewContext, printed = [], published = [], calls = [], depth = 0, sched = [] \<rparr>"

section \<open>The executor registry and the output cache\<close>

text \<open>
  Claim C5. After \<open>SetExecutor(h, e)\<close>, the soft lookup \<open>GetExecutor(h)\<close> returns
  \<open>(e, true)\<close> and the hard lookup \<open>Get(h)\<close> returns \<open>e\<close> without a panic. On a host
  with no registered executor the soft lookup returns the zero value and \<open>false\<close>, and
  the hard lookup panics.
\<close>

theorem executor_registry:
  "GetExecutor (SetExecutor c h e) h = (e, True)
   \<and> Get (SetExecutor c h e) h = Inr e
   \<and> (executors c h = None \<longrightarrow>
        GetExecutor c h = (NilExecutor, False)
        \<and> Get c h = Inl (Panic (''no init executor for '' @ h)))"
  by (simp add: GetExecutor_def Get_def SetExecutor_def)

theorem executor_registry_witness:
  "executors NewContext ''tikv-1'' = None
   \<and> GetExecutor NewContext ''tikv-1'' = (NilExecutor, False)
   \<and> Get NewContext ''tikv-1'' = Inl (Panic ''no init executor for tikv-1'')
   \<and> GetExecutor (SetExecutor NewContext ''tikv-1'' (Executor 7)) ''tikv-1'' = (Executor 7, True)
   \<and> Get (SetExecutor NewContext ''tikv-1'' (Executor 7)) ''tikv-1'' = Inr (Executor 7)"
  using executor_registry [of NewContext "''tikv-1''" "Executor 7"]
  by (simp add: NewContext_def)

text \<open>
  Claim C6. After \<open>SetOutputs(h, o, e)\<close>, \<open>GetOutputs(h)\<close> returns \<open>(o, e, true)\<close>,
  whatever the cache held before: a second \<open>SetOutputs\<close> for the same host replaces the
  pair (the state is the one a single \<open>SetOutputs\<close> leaves), and a \<open>SetOutputs\<close> for
  another host leaves the pair alone. Inside the context the pair is stored crosswise
  (\<open>o\<close> under \<open>stderrs\<close>, \<open>e\<close> under \<open>stdouts\<close>); the two swaps cancel at the
  interface.
\<close>

theorem outputs_round_trip:
  "GetOutputs (SetOutputs c h out err) h = (out, err, True)
   \<and> GetOutputs (SetOutputs (SetOutputs c h out0 err0) h out err) h = (out, err, True)
   \<and> SetOutputs (SetOutputs c h out0 err0) h out err = SetOutputs c h out err
   \<and> (h' \<noteq> h \<longrightarrow> GetOutputs (SetOutputs c h' out' err') h = GetOutputs c h)
   \<and> stderrs (SetOutputs c h out err) h = Some out
   \<and> stdouts (SetOutputs c h out err) h = Some err"
  by (simp add: GetOutputs_def SetOutputs_def)

theorem outputs_round_trip_witness:
  "''tikv-2'' \<noteq> ''tikv-1''
   \<and> GetOutputs (SetOutputs (SetOutputs NewContext ''tikv-1'' [1, 2] [3]) ''tikv-2'' [4] [5, 6])
        ''tikv-1'' = ([1, 2], [3], True)
   \<and> GetOutputs (SetOutputs (SetOutputs NewContext ''tikv-1'' [1, 2] [3]) ''tikv-1'' [4] [5, 6])
        ''tikv-1'' = ([4], [5, 6], True)
   \<and> GetOutputs NewContext ''tikv-1'' = ([], [], False)"
  using outputs_round_trip
    [of "SetOutputs NewContext ''tikv-1'' [1, 2] [3]" "''tikv-1''" "[4]" "[5, 6]" "[1, 2]" "[3]"
        "''tikv-2''" "[4]" "[5, 6]"]
  by (simp add: GetOutputs_def SetOutputs_def NewContext_def)

section \<open>The calls a composite makes\<close>

lemma direct_Nil [simp]: "direct m d [] = []"
  by (simp add: direct_def)

lemma direct_append [simp]: "direct m d (xs @ ys) = direct m d xs @ direct m d ys"
  by (simp add: direct_def)

lemma direct_Cons [simp]:
  "direct m d (Call d' m' t e # cs) =
     (if d' = d \<and> m' = m then (t, e) # direct m d cs else direct m d cs)"
  by (simp add: direct_def)

lemma direct_deeper: "\<forall>c\<in>set cs. d < call_depth c \<Longrightarrow> direct m d cs = []"
  by (induction cs) (auto simp: direct_def)

lemma invoke_depth [simp]: "depth (snd (invoke m X t w)) = depth w"
  by (simp add: invoke_def Let_def case_prod_unfold)

lemma invoke_calls:
  assumes "deeper X t"
  obtains cs where
    "calls (snd (invoke m X t w)) = calls w @ cs @ [Call (depth w) m t (fst (invoke m X t w))]"
    and "\<forall>c\<in>set cs. depth w < call_depth c"
proof -
  let ?v = "w\<lparr>depth := Suc (depth w)\<rparr>"
  from assms obtain cs where cs: "calls (snd (X t ?v)) = calls ?v @ cs"
    "\<forall>c\<in>set cs. depth ?v \<le> call_depth c"
    unfolding deeper_def by blast
  show thesis
  proof (rule that [of cs])
    show "calls (snd (invoke m X t w)) = calls w @ cs @ [Call (depth w) m t (fst (invoke m X t w))]"
      using cs(1) by (simp add: invoke_def Let_def case_prod_unfold)
    show "\<forall>c\<in>set cs. depth w < call_depth c"
      using cs(2) by auto
  qed
qed

lemma Serial_Execute_Cons:
  "Serial_Execute X hide (t # rest) w =
     (let w2 = PublishTaskBegin t
                 (if \<not> isDisplayTask t \<and> \<not> hide then Infof ''+ [ Serial ] - '' (String t) w else w);
          r = invoke ExecuteMethod X t w2;
          w4 = PublishTaskFinish t (fst r) (snd r)
      in if fst r \<noteq> None then (fst r, w4) else Serial_Execute X hide rest w4)"
  by (auto simp: Let_def case_prod_unfold)

lemma frame_simps [simp]:
  "calls (Infof p a w) = calls w" "depth (Infof p a w) = depth w"
  "calls (PublishTaskBegin t w) = calls w" "depth (PublishTaskBegin t w) = depth w"
  "calls (PublishTaskFinish t e w) = calls w" "depth (PublishTaskFinish t e w) = depth w"
  by (simp_all add: Infof_def PublishTaskBegin_def PublishTaskFinish_def)

lemma Serial_Execute_depth [simp]: "depth (snd (Serial_Execute X hide inner w)) = depth w"
  by (induction inner arbitrary: w) (simp_all add: Serial_Execute_Cons Let_def del: Serial_Execute.simps(2))

lemma serial_shape_Nil [simp]: "serial_shape [] None []"
  by (simp add: serial_shape_def)

lemma serial_shape_stop: "serial_shape (t # ts) (Some e) [(t, Some e)]"
  unfolding serial_shape_def by (intro disjI2 exI [of _ 0]) simp

lemma serial_shape_step:
  assumes "serial_shape ts res ds"
  shows "serial_shape (t # ts) res ((t, None) # ds)"
  using assms unfolding serial_shape_def
proof (elim disjE exE conjE)
  fix k e
  assume "k < length ts" "res = Some e"
    "ds = map (\<lambda>t. (t, None)) (take k ts) @ [(ts ! k, Some e)]"
  then have "Suc k < length (t # ts) \<and> res = Some e
     \<and> (t, None) # ds = map (\<lambda>t. (t, None)) (take (Suc k) (t # ts)) @ [((t # ts) ! Suc k, Some e)]"
    by simp
  then show "(res = None \<and> (t, None) # ds = map (\<lambda>t. (t, None)) (t # ts)) \<or>
        (\<exists>k e. k < length (t # ts) \<and> res = Some e \<and>
          (t, None) # ds = map (\<lambda>t. (t, None)) (take k (t # ts)) @ [((t # ts) ! k, Some e)])"
    by blast
qed simp

lemma Serial_Execute_calls:
  assumes "\<And>t. t \<in> set inner \<Longrightarrow> deeper X t"
  shows "\<exists>cs. calls (snd (Serial_Execute X hide inner w)) = calls w @ cs
           \<and> (\<forall>c\<in>set cs. depth w \<le> call_depth c)
           \<and> direct RollbackMethod (depth w) cs = []
           \<and> serial_shape inner (fst (Serial_Execute X hide inner w))
                (direct ExecuteMethod (depth w) cs)"
  using assms
proof (induction inner arbitrary: w)
  case Nil
  then show ?case by simp
next
  case (Cons t rest)
  define w2 where "w2 = PublishTaskBegin t
     (if \<not> isDisplayTask t \<and> \<not> hide then Infof ''+ [ Serial ] - '' (String t) w else w)"
  define r where "r = invoke ExecuteMethod X t w2"
  define w4 where "w4 = PublishTaskFinish t (fst r) (snd r)"
  have step: "Serial_Execute X hide (t # rest) w =
      (if fst r \<noteq> None then (fst r, w4) else Serial_Execute X hide rest w4)"
    unfolding w2_def r_def w4_def
    by (simp only: Serial_Execute_Cons Let_def)
  have d: "deeper X t" using Cons.prems by simp
  have w2: "calls w2 = calls w" "depth w2 = depth w"
    by (simp_all add: w2_def)
  obtain cs where cs: "calls (snd r) = calls w @ cs @ [Call (depth w) ExecuteMethod t (fst r)]"
    "\<forall>c\<in>set cs. depth w < call_depth c"
    using invoke_calls [OF d, of ExecuteMethod w2] unfolding r_def w2 by blast
  have w4: "calls w4 = calls w @ cs @ [Call (depth w) ExecuteMethod t (fst r)]" "depth w4 = depth w"
    using cs(1) by (simp_all add: w4_def r_def w2)
  have none: "direct m (depth w) cs = []" for m
    using cs(2) by (simp add: direct_deeper)
  have le: "\<forall>c\<in>set cs. depth w \<le> call_depth c"
    using cs(2) by (auto simp: less_imp_le)
  show ?case
  proof (cases "fst r")
    case (Some e)
    have "Serial_Execute X hide (t # rest) w = (Some e, w4)"
      unfolding step using Some by simp
    moreover have "serial_shape (t # rest) (Some e)
        (direct ExecuteMethod (depth w) (cs @ [Call (depth w) ExecuteMethod t (Some e)]))"
      by (simp add: none serial_shape_stop)
    ultimately show ?thesis
      using w4 le none Some
      by (intro exI [of _ "cs @ [Call (depth w) ExecuteMethod t (Some e)]"]) simp
  next
    case None
    have eq: "Serial_Execute X hide (t # rest) w = Serial_Execute X hide rest w4"
      unfolding step using None by simp
    from Cons.IH [of w4] Cons.prems obtain cs' where cs':
      "calls (snd (Serial_Execute X hide rest w4)) = calls w4 @ cs'"
      "\<forall>c\<in>set cs'. depth w4 \<le> call_depth c"
      "direct RollbackMethod (depth w4) cs' = []"
      "serial_shape rest (fst (Serial_Execute X hide rest w4)) (direct ExecuteMethod (depth w4) cs')"
      by auto
    have "serial_shape (t # rest) (fst (Serial_Execute X hide rest w4))
        (direct ExecuteMethod (depth w) (cs @ [Call (depth w) ExecuteMethod t None] @ cs'))"
      using cs'(4) by (simp add: none w4(2) serial_shape_step)
    then show ?thesis
      unfolding eq
      using cs'(1-3) w4 le none None
      by (intro exI [of _ "cs @ [Call (depth w) ExecuteMethod t None] @ cs'"]) auto
  qed
qed

lemma Serial_Rollback_from_Suc:
  "Serial_Rollback_from X inner (Suc i) w =
     (let r = invoke RollbackMethod X (inner ! i) w
      in if fst r \<noteq> None then (fst r, snd r) else Serial_Rollback_from X inner i (snd r))"
  by (auto simp: Let_def case_prod_unfold)

lemma Serial_Rollback_from_calls:
  assumes "\<And>t. t \<in> set inner \<Longrightarrow> deeper X t" and "n \<le> length inner"
  shows "\<exists>cs. calls (snd (Serial_Rollback_from X inner n w)) = calls w @ cs
           \<and> (\<forall>c\<in>set cs. depth w \<le> call_depth c)
           \<and> direct ExecuteMethod (depth w) cs = []
           \<and> serial_shape (rev (take n inner)) (fst (Serial_Rollback_from X inner n w))
                (direct RollbackMethod (depth w) cs)"
  using assms(2)
proof (induction n arbitrary: w)
  case 0
  then show ?case by simp
next
  case (Suc i)
  define t where "t = inner ! i"
  define r where "r = invoke RollbackMethod X t w"
  have step: "Serial_Rollback_from X inner (Suc i) w =
      (if fst r \<noteq> None then (fst r, snd r) else Serial_Rollback_from X inner i (snd r))"
    unfolding r_def t_def by (simp only: Serial_Rollback_from_Suc Let_def)
  have i: "i < length inner" using Suc.prems by simp
  then have d: "deeper X t" using assms(1) by (simp add: t_def)
  have order: "rev (take (Suc i) inner) = t # rev (take i inner)"
    using i by (simp add: take_Suc_conv_app_nth t_def)
  obtain cs where cs: "calls (snd r) = calls w @ cs @ [Call (depth w) RollbackMethod t (fst r)]"
    "\<forall>c\<in>set cs. depth w < call_depth c"
    using invoke_calls [OF d, of RollbackMethod w] unfolding r_def by blast
  have dr: "depth (snd r) = depth w" by (simp add: r_def)
  have none: "direct m (depth w) cs = []" for m
    using cs(2) by (simp add: direct_deeper)
  have le: "\<forall>c\<in>set cs. depth w \<le> call_depth c"
    using cs(2) by (auto simp: less_imp_le)
  show ?case
  proof (cases "fst r")
    case (Some e)
    have "Serial_Rollback_from X inner (Suc i) w = (Some e, snd r)"
      unfolding step using Some by simp
    moreover have "serial_shape (rev (take (Suc i) inner)) (Some e)
        (direct RollbackMethod (depth w) (cs @ [Call (depth w) RollbackMethod t (Some e)]))"
      unfolding order by (simp add: none serial_shape_stop)
    ultimately show ?thesis
      using cs(1) le none Some
      by (intro exI [of _ "cs @ [Call (depth w) RollbackMethod t (Some e)]"]) simp
  next
    case None
    have eq: "Serial_Rollback_from X inner (Suc i) w = Serial_Rollback_from X inner i (snd r)"
      unfolding step using None by simp
    from Suc.IH [of "snd r"] i obtain cs' where cs':
      "calls (snd (Serial_Rollback_from X inner i (snd r))) = calls (snd r) @ cs'"
      "\<forall>c\<in>set cs'. depth (snd r) \<le> call_depth c"
      "direct ExecuteMethod (depth (snd r)) cs' = []"
      "serial_shape (rev (take i inner)) (fst (Serial_Rollback_from X inner i (snd r)))
         (direct RollbackMethod (depth (snd r)) cs')"
      by auto
    have "serial_shape (rev (take (Suc i) inner)) (fst (Serial_Rollback_from X inner i (snd r)))
        (direct RollbackMethod (depth w) (cs @ [Call (depth w) RollbackMethod t None] @ cs'))"
      unfolding order using cs'(4) by (simp add: none dr serial_shape_step)
    then show ?thesis
      unfolding eq
      using cs'(1-3) cs(1) dr le none None
      by (intro exI [of _ "cs @ [Call (depth w) RollbackMethod t None] @ cs'"]) auto
  qed
qed

lemma Serial_Rollback_calls:
  assumes "\<And>t. t \<in> set inner \<Longrightarrow> deeper X t"
  shows "\<exists>cs. calls (snd (Serial_Rollback X inner w)) = calls w @ cs
           \<and> (\<forall>c\<in>set cs. depth w \<le> call_depth c)
           \<and> direct ExecuteMethod (depth w) cs = []
           \<and> serial_shape (rev inner) (fst (Serial_Rollback X inner w))
                (direct RollbackMethod (depth w) cs)"
  using Serial_Rollback_from_calls [where X = X and inner = inner and n = "length inner" and w = w] assms
  by (simp add: Serial_Rollback_def)

lemma mu_Lock_simps [simp]:
  "depth (mu_Lock t e w) = depth w"
  "calls (mu_Lock t e w) = calls w @ [Call (depth w) LockMutex t e]"
  "ctx (mu_Lock t e w) = ctx w" "sched (mu_Lock t e w) = sched w"
  "printed (mu_Lock t e w) = printed w" "published (mu_Lock t e w) = published w"
  by (simp_all add: mu_Lock_def)

lemma extends_refl [simp]: "extends v v"
  by (simp add: extends_def)

lemma extends_trans:
  assumes "extends u v" "extends v x"
  shows "extends u x"
proof -
  from assms obtain cs cs' where "calls v = calls u @ cs" "\<forall>c\<in>set cs. depth u \<le> call_depth c"
    "calls x = calls v @ cs'" "\<forall>c\<in>set cs'. depth v \<le> call_depth c" "depth v = depth u" "depth x = depth v"
    unfolding extends_def by blast
  then have "calls x = calls u @ (cs @ cs')" "\<forall>c\<in>set (cs @ cs'). depth u \<le> call_depth c" "depth x = depth u"
    by auto
  then show ?thesis unfolding extends_def by blast
qed

lemma invoke_extends:
  assumes "deeper X t"
  shows "extends w (snd (invoke m X t w))"
proof -
  from invoke_calls [OF assms, of m w] obtain cs where
    cs: "calls (snd (invoke m X t w)) = calls w @ cs @ [Call (depth w) m t (fst (invoke m X t w))]"
    "\<forall>c\<in>set cs. depth w < call_depth c"
    by blast
  have "\<forall>c\<in>set (cs @ [Call (depth w) m t (fst (invoke m X t w))]). depth w \<le> call_depth c"
    using cs(2) by (auto simp: less_imp_le)
  with cs(1) show ?thesis
    unfolding extends_def by (intro conjI exI [of _ "cs @ [Call (depth w) m t (fst (invoke m X t w))]"]) simp_all
qed

lemma extends_frame [simp]:
  "extends w (Infof p a w)" "extends w (PublishTaskBegin t w)" "extends w (PublishTaskFinish t e w)"
  "extends w (mu_Lock t e w)"
  by (simp_all add: extends_def)

text \<open>A property of the state that every step keeps is kept by the run.\<close>

lemma Parallel_run_preserves:
  assumes refl: "Q w w" and trans: "\<And>u v x. Q u v \<Longrightarrow> Q v x \<Longrightarrow> Q u x"
    and step: "\<And>g fe wg v. task_of g \<in> T \<Longrightarrow>
        Q v (snd (snd (snd (go g fe wg v)))) \<and> task_of (fst (go g fe wg v)) = task_of g"
    and T: "task_of ` set gs \<subseteq> T"
  shows "Q w (snd (snd (snd (Parallel_run go choices (gs, fe, wg, w)))))"
proof -
  have "matched (\<lambda>v v'. v = v' \<and> Q w v) T go go"
    unfolding matched_def related_def using step trans by blast
  from Parallel_run_related [OF this T, of w w choices fe wg] refl
  show ?thesis by (simp add: related_def)
qed

lemma Parallel_Execute_go_extends:
  assumes "deeper X (task_of g)"
  shows "extends v (snd (snd (snd (Parallel_Execute_go X hide g fe wg v))))
       \<and> task_of (fst (Parallel_Execute_go X hide g fe wg v)) = task_of g"
  using assms invoke_extends [of X "task_of g" v ExecuteMethod]
  by (cases g; cases "pc_of g") (auto simp: case_prod_unfold Let_def)

lemma Parallel_Rollback_go_extends:
  assumes "deeper X (task_of g)"
  shows "extends v (snd (snd (snd (Parallel_Rollback_go X g fe wg v))))
       \<and> task_of (fst (Parallel_Rollback_go X g fe wg v)) = task_of g"
  using assms invoke_extends [of X "task_of g" v RollbackMethod]
  by (cases g; cases "pc_of g") (auto simp: case_prod_unfold Let_def)

lemma Parallel_Execute_extends:
  assumes "\<And>t. t \<in> set inner \<Longrightarrow> deeper X t"
  shows "extends w (snd (Parallel_Execute X hide inner w))"
proof -
  let ?a = "w\<lparr>sched := drop (6 * length inner) (sched w)\<rparr>"
  have "extends ?a (snd (snd (snd (Parallel_run (Parallel_Execute_go X hide) choices
      (map (\<lambda>t. Goroutine t AtAnnounce None) inner, None, n, ?a)))))" for choices n
    by (rule Parallel_run_preserves [where T = "set inner"])
       (auto intro: extends_trans simp: Parallel_Execute_go_extends assms)
  then show ?thesis
    by (simp add: Parallel_Execute_def Parallel_Execute_wait_def Parallel_spawn_eq Let_def
        case_prod_unfold extends_def)
qed

lemma Parallel_Rollback_extends:
  assumes "\<And>t. t \<in> set inner \<Longrightarrow> deeper X t"
  shows "extends w (snd (Parallel_Rollback X inner w))"
proof -
  let ?a = "w\<lparr>sched := drop (3 * length inner) (sched w)\<rparr>"
  have "extends ?a (snd (snd (snd (Parallel_run (Parallel_Rollback_go X) choices
      (map (\<lambda>t. Goroutine t AtCall None) inner, None, n, ?a)))))" for choices n
    by (rule Parallel_run_preserves [where T = "set inner"])
       (auto intro: extends_trans simp: Parallel_Rollback_go_extends assms)
  then show ?thesis
    by (simp add: Parallel_Rollback_def Parallel_Rollback_wait_def Parallel_spawn_eq Let_def
        case_prod_unfold extends_def)
qed

lemma deeper_extends: "deeper X t \<longleftrightarrow> (\<forall>v. \<exists>cs. calls (snd (X t v)) = calls v @ cs
    \<and> (\<forall>c\<in>set cs. depth v \<le> call_depth c))"
  by (simp add: deeper_def)

lemma deeper_Execute: "deeper Execute t"
proof (induction t)
  case (Serial hide inner)
  show ?case
    unfolding deeper_def
  proof
    fix v
    from Serial_Execute_calls [of inner Execute hide v] Serial
    obtain cs where "calls (snd (Serial_Execute Execute hide inner v)) = calls v @ cs"
      "\<forall>c\<in>set cs. depth v \<le> call_depth c"
      by blast
    then show "\<exists>cs. calls (snd (Execute (Serial hide inner) v)) = calls v @ cs
        \<and> (\<forall>c\<in>set cs. depth v \<le> call_depth c)"
      by simp
  qed
next
  case (Parallel hide inner)
  then show ?case
    using Parallel_Execute_extends [of inner Execute _ hide]
    by (simp add: deeper_def extends_def)
qed (simp_all add: deeper_def case_prod_unfold Let_def)

lemma deeper_Rollback: "deeper Rollback t"
proof (induction t)
  case (Serial hide inner)
  show ?case
    unfolding deeper_def
  proof
    fix v
    from Serial_Rollback_calls [of inner Rollback v] Serial
    obtain cs where "calls (snd (Serial_Rollback Rollback inner v)) = calls v @ cs"
      "\<forall>c\<in>set cs. depth v \<le> call_depth c"
      by blast
    then show "\<exists>cs. calls (snd (Rollback (Serial hide inner) v)) = calls v @ cs
        \<and> (\<forall>c\<in>set cs. depth v \<le> call_depth c)"
      by simp
  qed
next
  case (Parallel hide inner)
  then show ?case
    using Parallel_Rollback_extends [of inner Rollback]
    by (simp add: deeper_def extends_def)
qed (simp_all add: deeper_def case_prod_unfold Let_def)


lemma direct_calls_append:
  "calls w' = calls w @ cs \<Longrightarrow> direct_calls m w w' = direct m (depth w) cs"
  by (simp add: direct_calls_def)

lemma serial_shape_props:
  assumes "serial_shape ts res cs"
  shows "map fst cs = take (length cs) ts
     \<and> (\<forall>k<length cs. snd (cs ! k) \<noteq> None \<longrightarrow> length cs = Suc k \<and> res = snd (cs ! k))
     \<and> ((\<forall>k<length cs. snd (cs ! k) = None) \<longrightarrow> length cs = length ts \<and> res = None)"
  using assms unfolding serial_shape_def
proof (elim disjE exE conjE)
  assume "res = None" "cs = map (\<lambda>t. (t, None)) ts"
  then show ?thesis by (simp add: comp_def)
next
  fix k e
  assume k: "k < length ts" and res: "res = Some e"
    and cs: "cs = map (\<lambda>t. (t, None)) (take k ts) @ [(ts ! k, Some e)]"
  have len: "length cs = Suc k" using k cs by simp
  have early: "snd (cs ! j) = None" if "j < k" for j
    using that k cs by (simp add: nth_append)
  have last: "cs ! k = (ts ! k, Some e)"
    using k cs by (simp add: nth_append)
  have "map fst cs = take (length cs) ts"
    using k cs by (simp add: take_Suc_conv_app_nth comp_def)
  moreover have "\<forall>j<length cs. snd (cs ! j) \<noteq> None \<longrightarrow> length cs = Suc j \<and> res = snd (cs ! j)"
  proof (intro allI impI)
    fix j assume "j < length cs" "snd (cs ! j) \<noteq> None"
    then have "j = k" using early len by (metis less_Suc_eq)
    then show "length cs = Suc j \<and> res = snd (cs ! j)"
      using len last res by simp
  qed
  moreover have "\<not> (\<forall>j<length cs. snd (cs ! j) = None)"
    using len last by (metis lessI option.distinct(1) snd_conv)
  ultimately show ?thesis by blast
qed



section \<open>What printing does not touch\<close>

lemma Serial_Execute_classified_isDisplayTask:
  "Serial_Execute_classified isDisplayTask X hide inner w = Serial_Execute X hide inner w"
  by (induction inner arbitrary: w) (simp_all add: Let_def case_prod_unfold)

lemma Parallel_Execute_go_classified_isDisplayTask:
  "Parallel_Execute_go_classified isDisplayTask X hide = Parallel_Execute_go X hide"
proof (intro ext)
  fix g fe wg w
  show "Parallel_Execute_go_classified isDisplayTask X hide g fe wg w = Parallel_Execute_go X hide g fe wg w"
    by (cases g; cases "pc_of g") simp_all
qed

lemma Parallel_Execute_classified_isDisplayTask:
  "Parallel_Execute_classified isDisplayTask X hide inner w = Parallel_Execute X hide inner w"
  by (simp add: Parallel_Execute_classified_def Parallel_Execute_def Parallel_Execute_wait_def
      Parallel_Execute_go_classified_isDisplayTask Let_def case_prod_unfold)

lemma Execute_classified_isDisplayTask: "Execute_classified isDisplayTask t w = Execute t w"
proof (induction t arbitrary: w)
  case (Serial hide inner)
  have "Serial_Execute (Execute_classified isDisplayTask) hide inner w = Serial_Execute Execute hide inner w"
    by (rule Serial_Execute_cong) (simp_all add: Serial)
  then show ?case by (simp add: Serial_Execute_classified_isDisplayTask)
next
  case (Parallel hide inner)
  have "Parallel_Execute (Execute_classified isDisplayTask) hide inner w = Parallel_Execute Execute hide inner w"
    by (rule Parallel_Execute_cong) (simp_all add: Parallel)
  then show ?case
    by (simp add: Parallel_Execute_classified_isDisplayTask)
qed simp_all

lemma agree_frame [simp]:
  "agree b (Infof p a v) v' = agree b v v'" "agree b v (Infof p a v') = agree b v v'"
  by (simp_all add: agree_def Infof_def)

lemma agree_publish:
  "agree b v v' \<Longrightarrow> agree b (PublishTaskBegin t v) (PublishTaskBegin t v')"
  "agree b v v' \<Longrightarrow> agree b (PublishTaskFinish t e v) (PublishTaskFinish t e v')"
  "agree b v v' \<Longrightarrow> agree b (mu_Lock t e v) (mu_Lock t e v')"
  by (simp_all add: agree_def PublishTaskBegin_def PublishTaskFinish_def mu_Lock_def)

lemma invoke_alike:
  assumes "alike b X X' t" "agree b v v'"
  shows "fst (invoke m X t v) = fst (invoke m X' t v')"
    and "agree b (snd (invoke m X t v)) (snd (invoke m X' t v'))"
proof -
  have a: "agree b (v\<lparr>depth := Suc (depth v)\<rparr>) (v'\<lparr>depth := Suc (depth v')\<rparr>)"
    using assms(2) by (simp add: agree_def)
  from assms(1) a have r: "fst (X t (v\<lparr>depth := Suc (depth v)\<rparr>)) = fst (X' t (v'\<lparr>depth := Suc (depth v')\<rparr>))"
    "agree b (snd (X t (v\<lparr>depth := Suc (depth v)\<rparr>))) (snd (X' t (v'\<lparr>depth := Suc (depth v')\<rparr>)))"
    unfolding alike_def by blast+
  show "fst (invoke m X t v) = fst (invoke m X' t v')"
    using r(1) by (simp add: invoke_def Let_def case_prod_unfold)
  show "agree b (snd (invoke m X t v)) (snd (invoke m X' t v'))"
    using r assms(2) by (simp add: invoke_def Let_def case_prod_unfold agree_def)
qed

lemma Serial_Execute_classified_Cons:
  "Serial_Execute_classified cls X hide (t # rest) w =
     (let w2 = PublishTaskBegin t
                 (if \<not> cls t \<and> \<not> hide then Infof ''+ [ Serial ] - '' (String t) w else w);
          r = invoke ExecuteMethod X t w2;
          w4 = PublishTaskFinish t (fst r) (snd r)
      in if fst r \<noteq> None then (fst r, w4) else Serial_Execute_classified cls X hide rest w4)"
  by (auto simp: Let_def case_prod_unfold)

lemma Serial_Execute_classified_alike:
  assumes "\<And>t. t \<in> set inner \<Longrightarrow> alike b X X' t" and "agree b v v'"
  shows "fst (Serial_Execute_classified cls X hide inner v)
         = fst (Serial_Execute_classified cls' X' hide' inner v')
       \<and> agree b (snd (Serial_Execute_classified cls X hide inner v))
           (snd (Serial_Execute_classified cls' X' hide' inner v'))"
  using assms
proof (induction inner arbitrary: v v')
  case Nil
  then show ?case by simp
next
  case (Cons t rest)
  define w2 where "w2 = PublishTaskBegin t
     (if \<not> cls t \<and> \<not> hide then Infof ''+ [ Serial ] - '' (String t) v else v)"
  define w2' where "w2' = PublishTaskBegin t
     (if \<not> cls' t \<and> \<not> hide' then Infof ''+ [ Serial ] - '' (String t) v' else v')"
  define r where "r = invoke ExecuteMethod X t w2"
  define r' where "r' = invoke ExecuteMethod X' t w2'"
  define w4 where "w4 = PublishTaskFinish t (fst r) (snd r)"
  define w4' where "w4' = PublishTaskFinish t (fst r') (snd r')"
  have step: "Serial_Execute_classified cls X hide (t # rest) v =
      (if fst r \<noteq> None then (fst r, w4) else Serial_Execute_classified cls X hide rest w4)"
    unfolding w2_def r_def w4_def by (simp only: Serial_Execute_classified_Cons Let_def)
  have step': "Serial_Execute_classified cls' X' hide' (t # rest) v' =
      (if fst r' \<noteq> None then (fst r', w4') else Serial_Execute_classified cls' X' hide' rest w4')"
    unfolding w2'_def r'_def w4'_def by (simp only: Serial_Execute_classified_Cons Let_def)
  have a2: "agree b w2 w2'"
    unfolding w2_def w2'_def using Cons.prems(2) by (auto intro: agree_publish)
  have al: "alike b X X' t" using Cons.prems(1) by simp
  have fr: "fst r = fst r'" and ar: "agree b (snd r) (snd r')"
    unfolding r_def r'_def using invoke_alike [OF al a2] by simp_all
  have a4: "agree b w4 w4'"
    unfolding w4_def w4'_def using fr ar by (simp add: agree_publish)
  show ?case
  proof (cases "fst r")
    case None
    then show ?thesis
      unfolding step step' using fr Cons.IH [OF _ a4] Cons.prems(1) by simp
  next
    case (Some e)
    then show ?thesis
      unfolding step step' using fr a4 by simp
  qed
qed

lemma Parallel_Execute_go_classified_alike:
  assumes "\<And>t. t \<in> T \<Longrightarrow> alike b X X' t"
  shows "matched (agree b) T (Parallel_Execute_go_classified cls X hide)
           (Parallel_Execute_go_classified cls' X' hide')"
  unfolding matched_def
proof (intro allI impI)
  fix g :: goroutine and firstError wg and v v' :: world
  assume t: "task_of g \<in> T" and a: "agree b v v'"
  from invoke_alike [OF assms [OF t] a, of ExecuteMethod] a
  show "related (agree b) (Parallel_Execute_go_classified cls X hide g firstError wg v)
          (Parallel_Execute_go_classified cls' X' hide' g firstError wg v')
       \<and> task_of (fst (Parallel_Execute_go_classified cls X hide g firstError wg v)) = task_of g"
    by (cases g; cases "pc_of g") (auto simp: case_prod_unfold Let_def agree_publish)
qed

lemma Parallel_Execute_classified_alike:
  assumes "\<And>t. t \<in> set inner \<Longrightarrow> alike b X X' t" and "agree b v v'"
  shows "fst (Parallel_Execute_classified cls X hide inner v)
         = fst (Parallel_Execute_classified cls' X' hide' inner v')
       \<and> agree b (snd (Parallel_Execute_classified cls X hide inner v))
           (snd (Parallel_Execute_classified cls' X' hide' inner v'))"
proof -
  have s: "sched v = sched v'" using assms(2) by (simp add: agree_def)
  have a0: "agree b (v\<lparr>sched := drop n (sched v)\<rparr>) (v'\<lparr>sched := drop n (sched v')\<rparr>)" for n
    using assms(2) by (simp add: agree_def)
  have "related (agree b)
      (Parallel_run (Parallel_Execute_go_classified cls X hide) choices
         (map (\<lambda>t. Goroutine t AtAnnounce None) inner, None, k, v\<lparr>sched := drop n (sched v)\<rparr>))
      (Parallel_run (Parallel_Execute_go_classified cls' X' hide') choices
         (map (\<lambda>t. Goroutine t AtAnnounce None) inner, None, k, v'\<lparr>sched := drop n (sched v')\<rparr>))"
    for choices k n
    by (rule Parallel_run_related [OF Parallel_Execute_go_classified_alike [of "set inner"]])
       (auto simp: assms(1) a0)
  then show ?thesis
    by (simp add: Parallel_Execute_classified_def Parallel_spawn_eq Let_def case_prod_unfold
        related_def s)
qed

lemma alike_Execute_classified: "alike b (Execute_classified cls) (Execute_classified cls') t"
proof (induction t)
  case (Serial hide inner)
  show ?case
    unfolding alike_def
    using Serial_Execute_classified_alike [of inner b "Execute_classified cls" "Execute_classified cls'", OF Serial]
    by simp
next
  case (Parallel hide inner)
  show ?case
    unfolding alike_def
    using Parallel_Execute_classified_alike [of inner b "Execute_classified cls" "Execute_classified cls'", OF Parallel]
    by simp
qed (simp_all add: alike_def agree_def Let_def case_prod_unfold)

lemma alike_Execute: "alike b Execute Execute t"
proof -
  have "Execute_classified isDisplayTask = Execute"
    by (intro ext) (rule Execute_classified_isDisplayTask)
  with alike_Execute_classified [of b isDisplayTask isDisplayTask t] show ?thesis by simp
qed

lemma Serial_Rollback_from_alike:
  assumes "\<And>t. t \<in> set inner \<Longrightarrow> alike b X X' t" and "agree b v v'" and "n \<le> length inner"
  shows "fst (Serial_Rollback_from X inner n v) = fst (Serial_Rollback_from X' inner n v')
       \<and> agree b (snd (Serial_Rollback_from X inner n v)) (snd (Serial_Rollback_from X' inner n v'))"
  using assms(2,3)
proof (induction n arbitrary: v v')
  case 0
  then show ?case by simp
next
  case (Suc i)
  then have al: "alike b X X' (inner ! i)" using assms(1) by simp
  from invoke_alike [OF al Suc.prems(1), of RollbackMethod]
  have fr: "fst (invoke RollbackMethod X (inner ! i) v) = fst (invoke RollbackMethod X' (inner ! i) v')"
    and ar: "agree b (snd (invoke RollbackMethod X (inner ! i) v)) (snd (invoke RollbackMethod X' (inner ! i) v'))"
    by simp_all
  from Suc.IH [OF ar] Suc.prems(2) fr ar show ?case
    by (simp add: Serial_Rollback_from_Suc Let_def del: Serial_Rollback_from.simps(2))
qed

lemma Parallel_Rollback_go_alike:
  assumes "\<And>t. t \<in> T \<Longrightarrow> alike b X X' t"
  shows "matched (agree b) T (Parallel_Rollback_go X) (Parallel_Rollback_go X')"
  unfolding matched_def
proof (intro allI impI)
  fix g :: goroutine and firstError wg and v v' :: world
  assume t: "task_of g \<in> T" and a: "agree b v v'"
  from invoke_alike [OF assms [OF t] a, of RollbackMethod] a
  show "related (agree b) (Parallel_Rollback_go X g firstError wg v)
          (Parallel_Rollback_go X' g firstError wg v')
       \<and> task_of (fst (Parallel_Rollback_go X g firstError wg v)) = task_of g"
    by (cases g; cases "pc_of g") (auto simp: case_prod_unfold Let_def agree_publish)
qed

lemma Parallel_Rollback_alike:
  assumes "\<And>t. t \<in> set inner \<Longrightarrow> alike b X X' t" and "agree b v v'"
  shows "fst (Parallel_Rollback X inner v) = fst (Parallel_Rollback X' inner v')
       \<and> agree b (snd (Parallel_Rollback X inner v)) (snd (Parallel_Rollback X' inner v'))"
proof -
  have s: "sched v = sched v'" using assms(2) by (simp add: agree_def)
  have a0: "agree b (v\<lparr>sched := drop n (sched v)\<rparr>) (v'\<lparr>sched := drop n (sched v')\<rparr>)" for n
    using assms(2) by (simp add: agree_def)
  have "related (agree b)
      (Parallel_run (Parallel_Rollback_go X) choices
         (map (\<lambda>t. Goroutine t AtCall None) inner, None, k, v\<lparr>sched := drop n (sched v)\<rparr>))
      (Parallel_run (Parallel_Rollback_go X') choices
         (map (\<lambda>t. Goroutine t AtCall None) inner, None, k, v'\<lparr>sched := drop n (sched v')\<rparr>))"
    for choices k n
    by (rule Parallel_run_related [OF Parallel_Rollback_go_alike [of "set inner"]])
       (auto simp: assms(1) a0)
  then show ?thesis
    by (simp add: Parallel_Rollback_def Parallel_Rollback_wait_def Parallel_spawn_eq Let_def
        case_prod_unfold related_def s)
qed

lemma alike_Rollback: "alike b Rollback Rollback t"
proof (induction t)
  case (Serial hide inner)
  show ?case
    unfolding alike_def
    using Serial_Rollback_from_alike [of inner b Rollback Rollback _ _ "length inner", OF Serial]
    by (simp add: Serial_Rollback_def)
next
  case (Parallel hide inner)
  show ?case
    unfolding alike_def
    using Parallel_Rollback_alike [of inner b Rollback Rollback, OF Parallel]
    by simp
qed (simp_all add: alike_def agree_def Let_def case_prod_unfold)

lemma invoke_quiet:
  assumes "quiet X t"
  shows "printed (snd (invoke m X t w)) = printed w \<and> published (snd (invoke m X t w)) = published w"
  using assms by (simp add: quiet_def invoke_def Let_def case_prod_unfold)

lemma Serial_Rollback_from_quiet:
  assumes "\<And>t. t \<in> set inner \<Longrightarrow> quiet X t" and "n \<le> length inner"
  shows "printed (snd (Serial_Rollback_from X inner n w)) = printed w
       \<and> published (snd (Serial_Rollback_from X inner n w)) = published w"
  using assms(2)
proof (induction n arbitrary: w)
  case 0
  then show ?case by simp
next
  case (Suc i)
  then have "quiet X (inner ! i)" using assms(1) by simp
  from invoke_quiet [OF this, of RollbackMethod w] Suc show ?case
    by (simp add: Serial_Rollback_from_Suc Let_def del: Serial_Rollback_from.simps(2))
qed

lemma Parallel_Rollback_go_quiet:
  assumes "quiet X (task_of g)"
  shows "(printed (snd (snd (snd (Parallel_Rollback_go X g fe wg v)))) = printed v
          \<and> published (snd (snd (snd (Parallel_Rollback_go X g fe wg v)))) = published v)
       \<and> task_of (fst (Parallel_Rollback_go X g fe wg v)) = task_of g"
  using invoke_quiet [OF assms, of RollbackMethod v]
  by (cases g; cases "pc_of g") (auto simp: case_prod_unfold Let_def)

lemma Parallel_Rollback_quiet:
  assumes "\<And>t. t \<in> set inner \<Longrightarrow> quiet X t"
  shows "printed (snd (Parallel_Rollback X inner w)) = printed w
       \<and> published (snd (Parallel_Rollback X inner w)) = published w"
proof -
  let ?a = "w\<lparr>sched := drop (3 * length inner) (sched w)\<rparr>"
  let ?Q = "\<lambda>u v. printed v = printed u \<and> published v = published u"
  have "?Q ?a (snd (snd (snd (Parallel_run (Parallel_Rollback_go X) choices
      (map (\<lambda>t. Goroutine t AtCall None) inner, None, n, ?a)))))" for choices n
    by (rule Parallel_run_preserves [where T = "set inner"])
       (auto simp: Parallel_Rollback_go_quiet assms)
  then show ?thesis
    by (simp add: Parallel_Rollback_def Parallel_Rollback_wait_def Parallel_spawn_eq Let_def
        case_prod_unfold)
qed

lemma quiet_Rollback: "quiet Rollback t"
proof (induction t)
  case (Serial hide inner)
  then show ?case
    using Serial_Rollback_from_quiet [of inner Rollback "length inner"]
    by (simp add: quiet_def Serial_Rollback_def)
next
  case (Parallel hide inner)
  then show ?case
    using Parallel_Rollback_quiet [of inner Rollback]
    by (simp add: quiet_def)
qed (simp_all add: quiet_def Let_def case_prod_unfold)

section \<open>The children's own methods\<close>

text \<open>
  A call through \<open>invoke\<close> returns what the method of the child returns in any state
  with the same context and decisions, and \<open>Serial\<close> calls its children as
  \<open>run_until_error\<close> does.
\<close>

lemma invoke_respects:
  assumes "alike False X X t" "agree False w u"
  shows "fst (invoke m X t w) = fst (X t u)"
    and "agree False (snd (invoke m X t w)) (snd (X t u))"
proof -
  have "agree False (w\<lparr>depth := Suc (depth w)\<rparr>) u"
    using assms(2) by (simp add: agree_def)
  with assms(1) have r: "fst (X t (w\<lparr>depth := Suc (depth w)\<rparr>)) = fst (X t u)"
    "agree False (snd (X t (w\<lparr>depth := Suc (depth w)\<rparr>))) (snd (X t u))"
    unfolding alike_def by blast+
  show "fst (invoke m X t w) = fst (X t u)"
    using r(1) by (simp add: invoke_def Let_def case_prod_unfold)
  show "agree False (snd (invoke m X t w)) (snd (X t u))"
    using r(2) by (simp add: invoke_def Let_def case_prod_unfold agree_def)
qed

lemma run_until_error_Cons:
  "run_until_error X (t # ts) u =
     (if fst (X t u) \<noteq> None then ([(t, fst (X t u))], snd (X t u))
      else ((t, fst (X t u)) # fst (run_until_error X ts (snd (X t u))),
            snd (run_until_error X ts (snd (X t u)))))"
  by (auto simp: Let_def case_prod_unfold)

lemma agree_False_frame [simp]:
  "agree False (PublishTaskBegin t v) u = agree False v u"
  "agree False (PublishTaskFinish t e v) u = agree False v u"
  "agree False (mu_Lock t e v) u = agree False v u"
  by (simp_all add: agree_def PublishTaskBegin_def PublishTaskFinish_def mu_Lock_def)

lemma Serial_Execute_runs:
  assumes "\<And>t. t \<in> set inner \<Longrightarrow> deeper X t \<and> alike False X X t" and "agree False w u"
  shows "\<exists>cs. calls (snd (Serial_Execute X hide inner w)) = calls w @ cs
           \<and> direct ExecuteMethod (depth w) cs = fst (run_until_error X inner u)
           \<and> agree False (snd (Serial_Execute X hide inner w)) (snd (run_until_error X inner u))"
  using assms
proof (induction inner arbitrary: w u)
  case Nil
  then show ?case by simp
next
  case (Cons t rest)
  define w2 where "w2 = PublishTaskBegin t
     (if \<not> isDisplayTask t \<and> \<not> hide then Infof ''+ [ Serial ] - '' (String t) w else w)"
  define r where "r = invoke ExecuteMethod X t w2"
  define w4 where "w4 = PublishTaskFinish t (fst r) (snd r)"
  have step: "Serial_Execute X hide (t # rest) w =
      (if fst r \<noteq> None then (fst r, w4) else Serial_Execute X hide rest w4)"
    unfolding w2_def r_def w4_def
    by (simp only: Serial_Execute_Cons Let_def)
  have d: "deeper X t" and al: "alike False X X t" using Cons.prems(1) by simp_all
  have w2: "calls w2 = calls w" "depth w2 = depth w" "agree False w2 u"
    using Cons.prems(2) by (simp_all add: w2_def)
  obtain cs where cs: "calls (snd r) = calls w @ cs @ [Call (depth w) ExecuteMethod t (fst r)]"
    "\<forall>c\<in>set cs. depth w < call_depth c"
    using invoke_calls [OF d, of ExecuteMethod w2] unfolding r_def w2 by blast
  have w4: "calls w4 = calls w @ cs @ [Call (depth w) ExecuteMethod t (fst r)]" "depth w4 = depth w"
    using cs(1) by (simp_all add: w4_def r_def w2)
  have none: "direct m (depth w) cs = []" for m
    using cs(2) by (simp add: direct_deeper)
  have fr: "fst r = fst (X t u)" and ar: "agree False w4 (snd (X t u))"
    using invoke_respects [OF al w2(3), of ExecuteMethod] by (simp_all add: r_def w4_def)
  show ?case
  proof (cases "fst r")
    case (Some e)
    have "Serial_Execute X hide (t # rest) w = (Some e, w4)"
      unfolding step using Some by simp
    then show ?thesis
      using w4 none Some fr ar
      by (intro exI [of _ "cs @ [Call (depth w) ExecuteMethod t (Some e)]"])
         (simp add: run_until_error_Cons del: run_until_error.simps)
  next
    case None
    have eq: "Serial_Execute X hide (t # rest) w = Serial_Execute X hide rest w4"
      unfolding step using None by simp
    from Cons.IH [of w4 "snd (X t u)"] Cons.prems(1) ar obtain cs' where cs':
      "calls (snd (Serial_Execute X hide rest w4)) = calls w4 @ cs'"
      "direct ExecuteMethod (depth w4) cs' = fst (run_until_error X rest (snd (X t u)))"
      "agree False (snd (Serial_Execute X hide rest w4)) (snd (run_until_error X rest (snd (X t u))))"
      by auto
    show ?thesis
      unfolding eq
      using cs' w4 none None fr
      by (intro exI [of _ "cs @ [Call (depth w) ExecuteMethod t None] @ cs'"])
         (simp add: run_until_error_Cons del: run_until_error.simps)
  qed
qed

lemma Serial_Rollback_from_runs:
  assumes "\<And>t. t \<in> set inner \<Longrightarrow> deeper X t \<and> alike False X X t" and "agree False w u"
    and "n \<le> length inner"
  shows "\<exists>cs. calls (snd (Serial_Rollback_from X inner n w)) = calls w @ cs
           \<and> direct RollbackMethod (depth w) cs = fst (run_until_error X (rev (take n inner)) u)
           \<and> agree False (snd (Serial_Rollback_from X inner n w))
               (snd (run_until_error X (rev (take n inner)) u))"
  using assms(2,3)
proof (induction n arbitrary: w u)
  case 0
  then show ?case by simp
next
  case (Suc i)
  define t where "t = inner ! i"
  define r where "r = invoke RollbackMethod X t w"
  have step: "Serial_Rollback_from X inner (Suc i) w =
      (if fst r \<noteq> None then (fst r, snd r) else Serial_Rollback_from X inner i (snd r))"
    unfolding r_def t_def by (simp only: Serial_Rollback_from_Suc Let_def)
  have i: "i < length inner" using Suc.prems by simp
  then have d: "deeper X t" and al: "alike False X X t" using assms(1) by (simp_all add: t_def)
  have order: "rev (take (Suc i) inner) = t # rev (take i inner)"
    using i by (simp add: take_Suc_conv_app_nth t_def)
  obtain cs where cs: "calls (snd r) = calls w @ cs @ [Call (depth w) RollbackMethod t (fst r)]"
    "\<forall>c\<in>set cs. depth w < call_depth c"
    using invoke_calls [OF d, of RollbackMethod w] unfolding r_def by blast
  have dr: "depth (snd r) = depth w" by (simp add: r_def)
  have none: "direct m (depth w) cs = []" for m
    using cs(2) by (simp add: direct_deeper)
  have fr: "fst r = fst (X t u)" and ar: "agree False (snd r) (snd (X t u))"
    using invoke_respects [OF al Suc.prems(1), of RollbackMethod] by (simp_all add: r_def)
  show ?case
  proof (cases "fst r")
    case (Some e)
    have "Serial_Rollback_from X inner (Suc i) w = (Some e, snd r)"
      unfolding step using Some by simp
    then show ?thesis
      unfolding order
      using cs(1) none Some fr ar
      by (intro exI [of _ "cs @ [Call (depth w) RollbackMethod t (Some e)]"])
         (simp add: run_until_error_Cons del: run_until_error.simps)
  next
    case None
    have eq: "Serial_Rollback_from X inner (Suc i) w = Serial_Rollback_from X inner i (snd r)"
      unfolding step using None by simp
    from Suc.IH [of "snd r" "snd (X t u)"] i ar obtain cs' where cs':
      "calls (snd (Serial_Rollback_from X inner i (snd r))) = calls (snd r) @ cs'"
      "direct RollbackMethod (depth (snd r)) cs' = fst (run_until_error X (rev (take i inner)) (snd (X t u)))"
      "agree False (snd (Serial_Rollback_from X inner i (snd r)))
         (snd (run_until_error X (rev (take i inner)) (snd (X t u))))"
      by auto
    show ?thesis
      unfolding eq order
      using cs' cs(1) dr none None fr
      by (intro exI [of _ "cs @ [Call (depth w) RollbackMethod t None] @ cs'"])
         (simp add: run_until_error_Cons del: run_until_error.simps)
  qed
qed


section \<open>The goroutines of Parallel\<close>
















text \<open>The definitions a run on a concrete input unfolds.\<close>

lemma replicate_numeral_Cons: "replicate (numeral k) x = x # replicate (pred_numeral k) x"
  by (simp add: numeral_eq_Suc)

lemmas eval_defs = replicate_numeral_Cons step_ok_def step_failing_def step_register_def
      succeed_def fail_with_def world0_def direct_calls_def direct_def invoke_def Infof_def
      PublishTaskBegin_def PublishTaskFinish_def mu_Lock_def Serial_Rollback_def
      Parallel_Execute_def Parallel_Execute_wait_def Parallel_Rollback_def
      Parallel_Rollback_wait_def Parallel_next_def NewContext_def GetExecutor_def
      SetExecutor_def Let_def

section \<open>Serial\<close>

text \<open>
  Claim C1. \<open>Serial.Execute\<close> calls \<open>Execute\<close> on its children in list order, once
  each, starting with the first. A child that returns a non-nil error is the last
  child called, and its error is what \<open>Serial.Execute\<close> returns: the children after
  it are never called. If no called child returns an error, every child has been
  called and \<open>Serial.Execute\<close> returns \<open>nil\<close>. The calls made and the errors they
  returned (\<open>cs\<close>) are those of the children's own \<open>Execute\<close>, each run in the state
  the child before it left (\<open>run_until_error\<close>), and the context \<open>Serial.Execute\<close>
  leaves is the context these calls leave.
\<close>

theorem Serial_Execute_stops_at_first_error:
  assumes "Execute (Serial hide inner) w = (res, w')"
    and "cs = direct_calls ExecuteMethod w w'"
  shows "map fst cs = take (length cs) inner
     \<and> (\<forall>k<length cs. snd (cs ! k) \<noteq> None \<longrightarrow> length cs = Suc k \<and> res = snd (cs ! k))
     \<and> ((\<forall>k<length cs. snd (cs ! k) = None) \<longrightarrow> length cs = length inner \<and> res = None)
     \<and> cs = fst (run_until_error Execute inner w)
     \<and> ctx w' = ctx (snd (run_until_error Execute inner w))"
proof -
  from Serial_Execute_calls [of inner Execute hide w] deeper_Execute
  obtain cs0 where "calls (snd (Serial_Execute Execute hide inner w)) = calls w @ cs0"
    "serial_shape inner (fst (Serial_Execute Execute hide inner w)) (direct ExecuteMethod (depth w) cs0)"
    by blast
  then have "serial_shape inner res cs"
    using assms by (simp add: direct_calls_append)
  then have shape: "map fst cs = take (length cs) inner
     \<and> (\<forall>k<length cs. snd (cs ! k) \<noteq> None \<longrightarrow> length cs = Suc k \<and> res = snd (cs ! k))
     \<and> ((\<forall>k<length cs. snd (cs ! k) = None) \<longrightarrow> length cs = length inner \<and> res = None)"
    by (rule serial_shape_props)
  have "agree False w w" by (simp add: agree_def)
  from Serial_Execute_runs [of inner Execute w w hide, OF _ this] deeper_Execute alike_Execute
  obtain cs1 where "calls (snd (Serial_Execute Execute hide inner w)) = calls w @ cs1"
    "direct ExecuteMethod (depth w) cs1 = fst (run_until_error Execute inner w)"
    "agree False (snd (Serial_Execute Execute hide inner w)) (snd (run_until_error Execute inner w))"
    by blast
  then have "cs = fst (run_until_error Execute inner w)"
    "ctx w' = ctx (snd (run_until_error Execute inner w))"
    using assms by (simp_all add: direct_calls_append agree_def)
  with shape show ?thesis by blast
qed

theorem Serial_Execute_stops_at_first_error_witness:
  "direct_calls ExecuteMethod world0
     (snd (Execute (Serial False
        [step_register ''a'' ''tikv-1'' (Executor 7), step_failing ''b'', step_ok ''c'']) world0))
     = [(step_register ''a'' ''tikv-1'' (Executor 7), None), (step_failing ''b'', Some (Failure ''b''))]
   \<and> fst (Execute (Serial False
        [step_register ''a'' ''tikv-1'' (Executor 7), step_failing ''b'', step_ok ''c'']) world0)
     = Some (Failure ''b'')
   \<and> GetExecutor (ctx (snd (Execute (Serial False
        [step_register ''a'' ''tikv-1'' (Executor 7), step_failing ''b'', step_ok ''c'']) world0)))
        ''tikv-1'' = (Executor 7, True)
   \<and> fst (run_until_error Execute
        [step_register ''a'' ''tikv-1'' (Executor 7), step_failing ''b'', step_ok ''c''] world0)
     = [(step_register ''a'' ''tikv-1'' (Executor 7), None), (step_failing ''b'', Some (Failure ''b''))]"
  using Serial_Execute_stops_at_first_error
    [of False "[step_register ''a'' ''tikv-1'' (Executor 7), step_failing ''b'', step_ok ''c'']" world0
      "fst (Execute (Serial False [step_register ''a'' ''tikv-1'' (Executor 7), step_failing ''b'', step_ok ''c'']) world0)"
      "snd (Execute (Serial False [step_register ''a'' ''tikv-1'' (Executor 7), step_failing ''b'', step_ok ''c'']) world0)"
      "direct_calls ExecuteMethod world0
        (snd (Execute (Serial False [step_register ''a'' ''tikv-1'' (Executor 7), step_failing ''b'', step_ok ''c'']) world0))"]
  by (simp add: eval_defs step_register_def GetExecutor_def SetExecutor_def)

text \<open>
  Claim C2, as stated, fails: \<open>Serial\<close> keeps no record of how far \<open>Execute\<close> got.
  With children \<open>a\<close>, \<open>b\<close> where \<open>b\<close> fails, \<open>Execute\<close> completes \<open>a\<close> only, and the
  \<open>Rollback\<close> that follows calls \<open>Rollback\<close> on \<open>b\<close> and then on \<open>a\<close>, not on \<open>a\<close>
  alone.
\<close>

theorem Serial_Rollback_completed_only_counterexample:
  "fst (Execute (Serial False [step_ok ''a'', step_failing ''b'']) world0) = Some (Failure ''b'')
   \<and> direct_calls ExecuteMethod world0
        (snd (Execute (Serial False [step_ok ''a'', step_failing ''b'']) world0))
      = [(step_ok ''a'', None), (step_failing ''b'', Some (Failure ''b''))]
   \<and> map fst (direct_calls RollbackMethod
        (snd (Execute (Serial False [step_ok ''a'', step_failing ''b'']) world0))
        (snd (Rollback (Serial False [step_ok ''a'', step_failing ''b''])
               (snd (Execute (Serial False [step_ok ''a'', step_failing ''b'']) world0)))))
      = [step_failing ''b'', step_ok ''a'']
   \<and> [step_failing ''b'', step_ok ''a''] \<noteq> [step_ok ''a'']"
  by (simp add: eval_defs)

text \<open>
  Claim C2, amended. \<open>Serial.Rollback\<close> calls \<open>Rollback\<close> on its children in strict
  reverse list order, once each, starting with the last child, whether or not the
  forward \<open>Execute\<close> reached them. A child whose \<open>Rollback\<close> returns a non-nil error
  is the last one called, and its error is returned. If no \<open>Rollback\<close> fails, every
  child has been rolled back and \<open>nil\<close> is returned. The calls made and the errors
  they returned (\<open>cs\<close>) are those of the children's own \<open>Rollback\<close>, run over the
  reversed list, each in the state the one before it left, and the context
  \<open>Serial.Rollback\<close> leaves is the context these calls leave.
\<close>

theorem Serial_Rollback_reverse_order:
  assumes "Rollback (Serial hide inner) w = (res, w')"
    and "cs = direct_calls RollbackMethod w w'"
  shows "map fst cs = take (length cs) (rev inner)
     \<and> (\<forall>k<length cs. snd (cs ! k) \<noteq> None \<longrightarrow> length cs = Suc k \<and> res = snd (cs ! k))
     \<and> ((\<forall>k<length cs. snd (cs ! k) = None) \<longrightarrow> length cs = length inner \<and> res = None)
     \<and> cs = fst (run_until_error Rollback (rev inner) w)
     \<and> ctx w' = ctx (snd (run_until_error Rollback (rev inner) w))"
proof -
  from Serial_Rollback_calls [of inner Rollback w] deeper_Rollback
  obtain cs0 where "calls (snd (Serial_Rollback Rollback inner w)) = calls w @ cs0"
    "serial_shape (rev inner) (fst (Serial_Rollback Rollback inner w))
       (direct RollbackMethod (depth w) cs0)"
    by blast
  then have "serial_shape (rev inner) res cs"
    using assms by (simp add: direct_calls_append)
  from serial_shape_props [OF this]
  have shape: "map fst cs = take (length cs) (rev inner)
     \<and> (\<forall>k<length cs. snd (cs ! k) \<noteq> None \<longrightarrow> length cs = Suc k \<and> res = snd (cs ! k))
     \<and> ((\<forall>k<length cs. snd (cs ! k) = None) \<longrightarrow> length cs = length inner \<and> res = None)"
    by simp
  have "agree False w w" by (simp add: agree_def)
  from Serial_Rollback_from_runs [of inner Rollback w w "length inner", OF _ this]
    deeper_Rollback alike_Rollback
  obtain cs1 where "calls (snd (Serial_Rollback Rollback inner w)) = calls w @ cs1"
    "direct RollbackMethod (depth w) cs1 = fst (run_until_error Rollback (rev inner) w)"
    "agree False (snd (Serial_Rollback Rollback inner w)) (snd (run_until_error Rollback (rev inner) w))"
    unfolding Serial_Rollback_def by auto
  then have "cs = fst (run_until_error Rollback (rev inner) w)"
    "ctx w' = ctx (snd (run_until_error Rollback (rev inner) w))"
    using assms by (simp_all add: direct_calls_append agree_def)
  with shape show ?thesis by blast
qed

theorem Serial_Rollback_reverse_order_witness:
  "direct_calls RollbackMethod world0
     (snd (Rollback (Serial False [step_ok ''a'', Leaf ''b'' succeed (fail_with ''b''), step_ok ''c'']) world0))
     = [(step_ok ''c'', None), (Leaf ''b'' succeed (fail_with ''b''), Some (Failure ''b''))]
   \<and> fst (Rollback (Serial False [step_ok ''a'', Leaf ''b'' succeed (fail_with ''b''), step_ok ''c'']) world0)
     = Some (Failure ''b'')
   \<and> fst (run_until_error Rollback
        (rev [step_ok ''a'', Leaf ''b'' succeed (fail_with ''b''), step_ok ''c'']) world0)
     = [(step_ok ''c'', None), (Leaf ''b'' succeed (fail_with ''b''), Some (Failure ''b''))]"
  using Serial_Rollback_reverse_order
    [of False "[step_ok ''a'', Leaf ''b'' succeed (fail_with ''b''), step_ok ''c'']" world0
      "fst (Rollback (Serial False [step_ok ''a'', Leaf ''b'' succeed (fail_with ''b''), step_ok ''c'']) world0)"
      "snd (Rollback (Serial False [step_ok ''a'', Leaf ''b'' succeed (fail_with ''b''), step_ok ''c'']) world0)"
      "direct_calls RollbackMethod world0
        (snd (Rollback (Serial False [step_ok ''a'', Leaf ''b'' succeed (fail_with ''b''), step_ok ''c'']) world0))"]
  by (simp add: eval_defs)

section \<open>Parallel\<close>






section \<open>Events, announcements and empty composites\<close>

text \<open>
  Claim C7, as stated, fails: \<open>Serial.Execute\<close> stops at the first child that
  returns an error. With three leaves of which the first fails, one Begin and one
  Finish event are published, not three of each.
\<close>

theorem Serial_three_leaves_events_counterexample:
  "published (snd (Execute (Serial False [step_failing ''a'', step_ok ''b'', step_ok ''c'']) world0))
     = [TaskBegin (step_failing ''a''), TaskFinish (step_failing ''a'') (Some (Failure ''a''))]
   \<and> length (published
        (snd (Execute (Serial False [step_failing ''a'', step_ok ''b'', step_ok ''c'']) world0))) \<noteq> 6"
  by (simp add: eval_defs)

text \<open>
  Claim C7, amended. Executing a \<open>Serial\<close> composite of three leaf tasks publishes
  \<open>Begin(t1), Finish(t1), Begin(t2), Finish(t2), Begin(t3), Finish(t3)\<close>, each Finish
  carrying the error (or \<open>nil\<close>) that child's \<open>Execute\<close> returned, provided neither of
  the first two children fails. If the first child fails, only \<open>Begin(t1), Finish(t1)\<close>
  are published; if the second fails, only the events of the first two children.
\<close>

theorem Serial_three_leaves_events:
  assumes "t1 = Leaf n1 e1 r1" "t2 = Leaf n2 e2 r2" "t3 = Leaf n3 e3 r3"
    and "e1 (ctx w) = (err1, c1)" "e2 c1 = (err2, c2)" "e3 c2 = (err3, c3)"
  shows "published (snd (Execute (Serial hide [t1, t2, t3]) w)) = published w @
     (if err1 \<noteq> None then [TaskBegin t1, TaskFinish t1 err1]
      else if err2 \<noteq> None then
        [TaskBegin t1, TaskFinish t1 None, TaskBegin t2, TaskFinish t2 err2]
      else
        [TaskBegin t1, TaskFinish t1 None, TaskBegin t2, TaskFinish t2 None,
         TaskBegin t3, TaskFinish t3 err3])"
  using assms
  by (auto simp: invoke_def Infof_def PublishTaskBegin_def PublishTaskFinish_def Let_def)

theorem Serial_three_leaves_events_witness:
  "published (snd (Execute (Serial False [step_ok ''a'', step_ok ''b'', step_failing ''c'']) world0))
     = [TaskBegin (step_ok ''a''), TaskFinish (step_ok ''a'') None,
        TaskBegin (step_ok ''b''), TaskFinish (step_ok ''b'') None,
        TaskBegin (step_failing ''c''), TaskFinish (step_failing ''c'') (Some (Failure ''c''))]"
  using Serial_three_leaves_events
    [of "step_ok ''a''" "''a''" succeed succeed "step_ok ''b''" "''b''" succeed succeed
        "step_failing ''c''" "''c''" "fail_with ''c''" succeed world0
        None NewContext None NewContext "Some (Failure ''c'')" NewContext False]
  by (simp add: step_ok_def step_failing_def succeed_def fail_with_def world0_def)

text \<open>
  Claim C8. For a \<open>Serial\<close> and for a \<open>Parallel\<close> composite, the error returned by
  \<open>Execute\<close>, the context it leaves, the calls made and the events published are the
  same whatever the flag \<open>hideDetailDisplay\<close> of the composite is (\<open>hide\<close> or
  \<open>hide'\<close>) and however the children are classified (by \<open>isDisplayTask\<close> or by any
  other \<open>cls\<close>): the flag and the classification govern the printed lines only.
\<close>

theorem display_governs_printing_only:
  "fst (Execute (Serial hide inner) w) = fst (Execute_classified cls (Serial hide' inner) w)
   \<and> ctx (snd (Execute (Serial hide inner) w))
       = ctx (snd (Execute_classified cls (Serial hide' inner) w))
   \<and> calls (snd (Execute (Serial hide inner) w))
       = calls (snd (Execute_classified cls (Serial hide' inner) w))
   \<and> published (snd (Execute (Serial hide inner) w))
       = published (snd (Execute_classified cls (Serial hide' inner) w))
   \<and> fst (Execute (Parallel hide inner) w) = fst (Execute_classified cls (Parallel hide' inner) w)
   \<and> ctx (snd (Execute (Parallel hide inner) w))
       = ctx (snd (Execute_classified cls (Parallel hide' inner) w))
   \<and> calls (snd (Execute (Parallel hide inner) w))
       = calls (snd (Execute_classified cls (Parallel hide' inner) w))
   \<and> published (snd (Execute (Parallel hide inner) w))
       = published (snd (Execute_classified cls (Parallel hide' inner) w))"
proof -
  have w: "agree True w w" by (simp add: agree_def)
  have children: "alike True (Execute_classified isDisplayTask) (Execute_classified cls) t" for t
    by (rule alike_Execute_classified)
  have "fst (Execute_classified isDisplayTask (Serial hide inner) w)
          = fst (Execute_classified cls (Serial hide' inner) w)
      \<and> agree True (snd (Execute_classified isDisplayTask (Serial hide inner) w))
          (snd (Execute_classified cls (Serial hide' inner) w))"
    using Serial_Execute_classified_alike [where inner = inner and cls = isDisplayTask
        and hide = hide and cls' = cls and hide' = hide', OF children w]
    by simp
  moreover have "fst (Execute_classified isDisplayTask (Parallel hide inner) w)
          = fst (Execute_classified cls (Parallel hide' inner) w)
      \<and> agree True (snd (Execute_classified isDisplayTask (Parallel hide inner) w))
          (snd (Execute_classified cls (Parallel hide' inner) w))"
    using Parallel_Execute_classified_alike [where inner = inner and cls = isDisplayTask
        and hide = hide and cls' = cls and hide' = hide', OF children w]
    by simp
  ultimately show ?thesis
    unfolding Execute_classified_isDisplayTask [symmetric] by (simp add: agree_def)
qed

theorem display_governs_printing_only_witness:
  "printed (snd (Execute (Serial False [step_ok ''a'', step_failing ''b'']) world0))
     = [''+ [ Serial ] - a'', ''+ [ Serial ] - b'']
   \<and> printed (snd (Execute_classified (\<lambda>t. True) (Serial True [step_ok ''a'', step_failing ''b'']) world0))
     = []
   \<and> published (snd (Execute (Serial False [step_ok ''a'', step_failing ''b'']) world0))
     = published (snd (Execute_classified (\<lambda>t. True)
         (Serial True [step_ok ''a'', step_failing ''b'']) world0))
   \<and> published (snd (Execute (Serial False [step_ok ''a'', step_failing ''b'']) world0))
     = [TaskBegin (step_ok ''a''), TaskFinish (step_ok ''a'') None,
        TaskBegin (step_failing ''b''), TaskFinish (step_failing ''b'') (Some (Failure ''b''))]"
  using display_governs_printing_only
    [of False "[step_ok ''a'', step_failing ''b'']" world0 "\<lambda>t. True" True]
  by (simp add: eval_defs)

text \<open>
  Claim C9. With an empty child list, \<open>Execute\<close> and \<open>Rollback\<close> of a \<open>Serial\<close> and
  of a \<open>Parallel\<close> composite return \<open>nil\<close> and leave the whole state as it was:
  nothing is published, nothing is printed, and the context is unchanged.
\<close>

theorem composite_without_children:
  "Execute (Serial hide []) w = (None, w)
   \<and> Rollback (Serial hide []) w = (None, w)
   \<and> Execute (Parallel hide []) w = (None, w)
   \<and> Rollback (Parallel hide []) w = (None, w)"
  by (simp add: Serial_Rollback_def Parallel_Execute_def Parallel_Execute_wait_def
      Parallel_Rollback_def Parallel_Rollback_wait_def)

text \<open>
  Claim C10. \<open>Rollback\<close> of a \<open>Serial\<close> or a \<open>Parallel\<close> composite publishes no
  event and prints no line, whatever the flag \<open>hideDetailDisplay\<close> is, at any depth
  of nesting.
\<close>

theorem Rollback_publishes_and_prints_nothing:
  "published (snd (Rollback (Serial hide inner) w)) = published w
   \<and> printed (snd (Rollback (Serial hide inner) w)) = printed w
   \<and> published (snd (Rollback (Parallel hide inner) w)) = published w
   \<and> printed (snd (Rollback (Parallel hide inner) w)) = printed w"
  using quiet_Rollback [of "Serial hide inner"] quiet_Rollback [of "Parallel hide inner"]
  by (simp add: quiet_def)

end
